theory Spec2Isabelle
  imports Complex_Main "HOL-Library.Word" "HOL-Library.Monad_Syntax"
begin

unbundle bit_operations_syntax

section \<open>Tokenization (text_dedup/utils/tokenization.py)\<close>

text \<open>
  Python's \<^verbatim>\<open>zip(*iterables)\<close>: no iterables give nothing; otherwise one tuple is
  produced per round, until some iterable is exhausted.
\<close>

function zip_star :: "'a list list \<Rightarrow> 'a list list" where
  "zip_star xss =
     (if xss = [] \<or> [] \<in> set xss then [] else map hd xss # zip_star (map tl xss))"
  by pat_completeness auto
termination
proof (relation "measure (\<lambda>xss. length (hd xss))")
  fix xss :: "'a list list"
  assume "\<not> (xss = [] \<or> [] \<in> set xss)"
  then have "xss \<noteq> []" and "hd xss \<noteq> []"
    by (auto dest: hd_in_set)
  then show "(map tl xss, xss) \<in> measure (\<lambda>xss. length (hd xss))"
    by (simp add: hd_map)
qed simp

declare zip_star.simps [simp del]

text \<open>
  \<^verbatim>\<open>ngrams(sequence, n, min_length=5)\<close>. The \<open>n\<close> iterators made by \<^verbatim>\<open>tee\<close> are
  advanced by \<open>0, 1, ..., n - 1\<close> items (\<^verbatim>\<open>next(it, None)\<close> is harmless on an exhausted
  iterator, as \<open>drop\<close> is) and zipped.
\<close>

definition ngrams :: "'a list \<Rightarrow> nat \<Rightarrow> nat \<Rightarrow> 'a list list" where
  "ngrams sequence n min_length =
     (if length sequence < min_length then []
      else if length sequence < n then [sequence]
      else zip_star (map (\<lambda>i. drop i sequence) [0..<n]))"

section \<open>The regular expression split and shingle rendering (text_dedup/minhash.py)\<close>

text \<open>
  A Python character is modelled by a \<^typ>\<open>char\<close>. The class \<^verbatim>\<open>[^A-Za-z_0-9]\<close> is written
  with explicit ASCII ranges, so every other character, whatever its code point, is a
  delimiter.
\<close>

definition word_char :: "char \<Rightarrow> bool" where
  "word_char c =
     (let k = (of_char c :: nat) in
      (65 \<le> k \<and> k \<le> 90) \<or> (97 \<le> k \<and> k \<le> 122) \<or> k = 95 \<or> (48 \<le> k \<and> k \<le> 57))"

text \<open>
  \<^verbatim>\<open>NON_ALPHA.split(content)\<close>: the pattern matches exactly one character, so the
  string is cut at every delimiter and the pieces between two delimiters, before the
  first and after the last one are all returned, empty or not.
\<close>

fun NON_ALPHA_split :: "string \<Rightarrow> string list" where
  "NON_ALPHA_split [] = [[]]"
| "NON_ALPHA_split (c # cs) =
     (if word_char c then (c # hd (NON_ALPHA_split cs)) # tl (NON_ALPHA_split cs)
      else [] # NON_ALPHA_split cs)"

text \<open>\<^verbatim>\<open>" ".join(t)\<close>.\<close>

fun join_space :: "string list \<Rightarrow> string" where
  "join_space [] = []"
| "join_space [t] = t"
| "join_space (t # u # ts) = t @ CHR '' '' # join_space (u # ts)"

text \<open>
  The generator of the set comprehension on line 96 of minhash.py, before the set is
  built: the rendered shingles in window order, duplicates included.
\<close>

definition shingle_strings :: "string \<Rightarrow> nat \<Rightarrow> string list" where
  "shingle_strings content ngram_size =
     map join_space (ngrams (NON_ALPHA_split content) ngram_size 5)"

section \<open>Hash primitives\<close>

type_synonym byte = "8 word"
type_synonym u32 = "32 word"
type_synonym u64 = "64 word"

text \<open>
  \<^verbatim>\<open>str.encode("utf-8")\<close> for the code points a \<^typ>\<open>char\<close> can hold: one byte below
  128, two bytes from 128 to 255.
\<close>

definition utf8_char :: "char \<Rightarrow> byte list" where
  "utf8_char c =
     (let k = (of_char c :: nat) in
      if k < 128 then [of_nat k] else [of_nat (192 + k div 64), of_nat (128 + k mod 64)])"

definition utf8_encode :: "string \<Rightarrow> byte list" where
  "utf8_encode s = concat (map utf8_char s)"

text \<open>\<^verbatim>\<open>struct.unpack("<I", bs)\<close>: the bytes read as a little-endian unsigned integer.\<close>

fun unpack_le :: "byte list \<Rightarrow> u32" where
  "unpack_le [] = 0"
| "unpack_le (b # bs) = ucast b OR push_bit 8 (unpack_le bs)"

text \<open>
  \<^verbatim>\<open>sha1_hash32\<close>. The SHA-1 digest comes from \<^verbatim>\<open>hashlib\<close>; it is the parameter
  \<open>sha1\<close>, about which nothing is assumed.
\<close>

definition sha1_hash32 :: "(byte list \<Rightarrow> byte list) \<Rightarrow> byte list \<Rightarrow> u32" where
  "sha1_hash32 sha1 data = unpack_le (take 4 (sha1 data))"

section \<open>The MinHash fingerprint (embed_func)\<close>

definition MAX_HASH :: u64 where
  "MAX_HASH = push_bit 32 1 - 1"

definition MERSENNE_PRIME :: u64 where
  "MERSENNE_PRIME = push_bit 61 1 - 1"

text \<open>
  One entry of \<^verbatim>\<open>phv\<close> on line 99: \<^verbatim>\<open>hv\<close>, \<^verbatim>\<open>a\<close> and \<^verbatim>\<open>b\<close> are arrays of
  \<^verbatim>\<open>np.uint64\<close>, whose product and sum are taken modulo \<open>2 ^ 64\<close>, as those of
  \<^typ>\<open>u64\<close> are.
\<close>

definition permuted_hash :: "u64 \<Rightarrow> u64 \<Rightarrow> u64 \<Rightarrow> u64" where
  "permuted_hash h a b = ((h * a + b) mod MERSENNE_PRIME) AND MAX_HASH"

text \<open>
  Lines 95 to 100. \<open>set_iter\<close> is the order in which Python iterates the set built from
  the rendered shingles; \<open>permutations\<close> holds the columns \<open>(a\<^sub>i, b\<^sub>i)\<close> of the
  \<open>2 \<times> k\<close> array. \<^verbatim>\<open>np.vstack([phv, hashvalues]).min(axis=0)\<close> is the column-wise
  minimum of the rows of \<^verbatim>\<open>phv\<close> and the row of initial values.
\<close>

definition minhash_values ::
  "(byte list \<Rightarrow> byte list) \<Rightarrow> (string list \<Rightarrow> string list) \<Rightarrow> string \<Rightarrow> nat \<Rightarrow> nat \<Rightarrow>
   (u64 \<times> u64) list \<Rightarrow> u64 list" where
  "minhash_values sha1 set_iter content num_perm ngram_size permutations =
     (let hashvalues = replicate num_perm MAX_HASH;
          tokens = set_iter (shingle_strings content ngram_size);
          hv = map (\<lambda>token. (ucast (sha1_hash32 sha1 (utf8_encode token)) :: u64)) tokens;
          phv = map (\<lambda>h. map (\<lambda>(a, b). permuted_hash h a b) permutations) hv
      in fold (\<lambda>row acc. map2 min row acc) phv hashvalues)"

text \<open>
  An array element lies in memory in the byte order of the host;
  \<^verbatim>\<open>byteswap()\<close> reverses the bytes of every element and \<^verbatim>\<open>bytes(....data)\<close> reads
  the memory.
\<close>

datatype endian = LittleEndian | BigEndian

definition le_bytes64 :: "u64 \<Rightarrow> byte list" where
  "le_bytes64 w = map (\<lambda>i. ucast (drop_bit (8 * i) w)) [0..<8]"

definition memory_bytes :: "endian \<Rightarrow> u64 \<Rightarrow> byte list" where
  "memory_bytes host w = (case host of LittleEndian \<Rightarrow> le_bytes64 w | BigEndian \<Rightarrow> rev (le_bytes64 w))"

definition byteswap_bytes :: "endian \<Rightarrow> u64 list \<Rightarrow> byte list" where
  "byteswap_bytes host vs = concat (map (\<lambda>v. rev (memory_bytes host v)) vs)"

text \<open>
  \<^verbatim>\<open>embed_func\<close>. \<^verbatim>\<open>a, b = permutations\<close> raises when the array is empty and
  \<^verbatim>\<open>np.vstack\<close> raises when the rows do not have \<open>num_perm\<close> columns: \<open>None\<close>. A slice
  \<^verbatim>\<open>hashvalues[start:end]\<close> is clipped at the end of the array, as \<open>take\<close> and \<open>drop\<close>
  are.
\<close>

definition embed_func ::
  "(byte list \<Rightarrow> byte list) \<Rightarrow> (string list \<Rightarrow> string list) \<Rightarrow> endian \<Rightarrow> string \<Rightarrow> nat \<Rightarrow> nat \<Rightarrow>
   nat \<Rightarrow> (nat \<times> nat) list \<Rightarrow> (u64 \<times> u64) list \<Rightarrow> (byte list list \<times> nat) option" where
  "embed_func sha1 set_iter host content idx num_perm ngram_size hashranges permutations =
     (if permutations = [] \<or> length permutations \<noteq> num_perm then None
      else
        let hashvalues = minhash_values sha1 set_iter content num_perm ngram_size permutations;
            Hs = map (\<lambda>(start, end). byteswap_bytes host (take (end - start) (drop start hashvalues)))
                   hashranges
        in Some (Hs, idx))"

section \<open>The LSH parameter oracle (optimal_param)\<close>

text \<open>
  \<^verbatim>\<open>scipy.integrate.quad\<close> is the parameter \<open>integrate\<close> (its first result, the value of
  the integral), and Python's floats are read as real numbers. \<open>min_error\<close> starts as
  \<^verbatim>\<open>float("inf")\<close>, here \<open>None\<close>, which every error is below.
\<close>

definition false_positive_probability ::
  "((real \<Rightarrow> real) \<Rightarrow> real \<Rightarrow> real \<Rightarrow> real) \<Rightarrow> real \<Rightarrow> nat \<Rightarrow> nat \<Rightarrow> real" where
  "false_positive_probability integrate threshold b r =
     integrate (\<lambda>s. 1 - (1 - s ^ r) ^ b) 0 threshold"

definition false_negative_probability ::
  "((real \<Rightarrow> real) \<Rightarrow> real \<Rightarrow> real \<Rightarrow> real) \<Rightarrow> real \<Rightarrow> nat \<Rightarrow> nat \<Rightarrow> real" where
  "false_negative_probability integrate threshold b r =
     integrate (\<lambda>s. 1 - (1 - (1 - s ^ r) ^ b)) threshold 1"

definition weighted_error ::
  "((real \<Rightarrow> real) \<Rightarrow> real \<Rightarrow> real \<Rightarrow> real) \<Rightarrow> real \<Rightarrow> real \<Rightarrow> real \<Rightarrow> nat \<Rightarrow> nat \<Rightarrow> real" where
  "weighted_error integrate threshold false_positive_weight false_negative_weight b r =
     false_positive_probability integrate threshold b r * false_positive_weight
     + false_negative_probability integrate threshold b r * false_negative_weight"

definition below :: "real \<Rightarrow> real option \<Rightarrow> bool" where
  "below e m = (case m of None \<Rightarrow> True | Some x \<Rightarrow> e < x)"

definition sweep_step ::
  "(nat \<Rightarrow> nat \<Rightarrow> real) \<Rightarrow> nat \<Rightarrow> nat \<Rightarrow> real option \<times> nat \<times> nat \<Rightarrow> real option \<times> nat \<times> nat" where
  "sweep_step error b r st =
     (if below (error b r) (fst st) then (Some (error b r), (b, r)) else st)"

definition sweep ::
  "(nat \<Rightarrow> nat \<Rightarrow> real) \<Rightarrow> nat \<Rightarrow> real option \<times> nat \<times> nat" where
  "sweep error num_perm =
     fold (\<lambda>b. fold (sweep_step error b) [1..<num_perm div b + 1]) [1..<num_perm + 1]
       (None, (0, 0))"

definition optimal_param ::
  "((real \<Rightarrow> real) \<Rightarrow> real \<Rightarrow> real \<Rightarrow> real) \<Rightarrow> real \<Rightarrow> nat \<Rightarrow> real \<Rightarrow> real \<Rightarrow> nat \<times> nat" where
  "optimal_param integrate threshold num_perm false_positive_weight false_negative_weight =
     snd (sweep (weighted_error integrate threshold false_positive_weight false_negative_weight)
            num_perm)"

section \<open>Union-find\<close>

text \<open>
  Modelled from the spec: the class \<^verbatim>\<open>UnionFind\<close> of \<^verbatim>\<open>text_dedup.utils\<close>, which
  minhash.py imports and whose source is not at hand. The structure maps each id to a
  parent id, an id that was never touched being its own parent; \<open>find\<close> returns the
  root and compresses the path it walked; \<open>union x y\<close> does nothing when the two roots
  are equal and otherwise sets \<open>parent[max rx ry] = min rx ry\<close>. \<open>find\<close> need not
  return on a parent map with a cycle: \<open>None\<close>.
\<close>

type_synonym UnionFind = "nat \<Rightarrow> nat"

definition UnionFind_new :: UnionFind where
  "UnionFind_new = (\<lambda>i. i)"

partial_function (option) uf_find :: "UnionFind \<Rightarrow> nat \<Rightarrow> (UnionFind \<times> nat) option" where
  "uf_find parent x =
     (if parent x = x then Some (parent, x)
      else uf_find parent (parent x) \<bind> (\<lambda>(parent', root). Some (parent'(x := root), root)))"

declare uf_find.simps [code]

definition uf_union :: "UnionFind \<Rightarrow> nat \<Rightarrow> nat \<Rightarrow> UnionFind option" where
  "uf_union parent x y =
     uf_find parent x \<bind> (\<lambda>(parent1, rx).
     uf_find parent1 y \<bind> (\<lambda>(parent2, ry).
     Some (if rx = ry then parent2 else parent2(max rx ry := min rx ry))))"

section \<open>LSH index and clustering (minhash.py, lines 224 to 262)\<close>

text \<open>A loop whose body may fail stops at the first failure.\<close>

fun foldM :: "('a \<Rightarrow> 's \<Rightarrow> 's option) \<Rightarrow> 'a list \<Rightarrow> 's \<Rightarrow> 's option" where
  "foldM f [] s = Some s"
| "foldM f (x # xs) s = (case f x s of None \<Rightarrow> None | Some s' \<Rightarrow> foldM f xs s')"

text \<open>
  One table of \<^verbatim>\<open>HASH_TABLES\<close> is a \<^verbatim>\<open>defaultdict(set)\<close>: its keys are kept in
  insertion order, as a Python dict keeps them, and a bucket lists its ids without
  repetition. \<open>table_add H key\<close> is \<^verbatim>\<open>hashtable[H].add(key)\<close>.
\<close>

type_synonym hashtable = "(byte list \<times> nat list) list"

fun table_add :: "byte list \<Rightarrow> nat \<Rightarrow> hashtable \<Rightarrow> hashtable" where
  "table_add H key [] = [(H, [key])]"
| "table_add H key ((H', ids) # tab) =
     (if H' = H then (H', if key \<in> set ids then ids else ids @ [key]) # tab
      else (H', ids) # table_add H key tab)"

text \<open>
  \<^verbatim>\<open>for H, hashtable in zip(Hs, HASH_TABLES)\<close>: the tables beyond the last key are left
  as they are.
\<close>

definition index_record :: "byte list list \<Rightarrow> nat \<Rightarrow> hashtable list \<Rightarrow> hashtable list" where
  "index_record Hs key tables =
     map2 (\<lambda>H hashtable. table_add H key hashtable) Hs tables @ drop (length Hs) tables"

text \<open>\<^verbatim>\<open>embedded[i : i + batch_size]\<close> for \<^verbatim>\<open>i in range(0, len(embedded), batch_size)\<close>.\<close>

definition batches :: "nat \<Rightarrow> 'a list \<Rightarrow> 'a list list" where
  "batches batch_size xs =
     map (\<lambda>j. take batch_size (drop (j * batch_size) xs))
       [0..<(length xs + batch_size - 1) div batch_size]"

definition build_tables ::
  "nat \<Rightarrow> (byte list list \<times> nat) list \<Rightarrow> hashtable list \<Rightarrow> hashtable list" where
  "build_tables batch_size embedded tables =
     fold (\<lambda>batch. fold (\<lambda>(Hs, key). index_record Hs key) batch) (batches batch_size embedded)
       tables"

text \<open>
  Lines 235 to 240 for one bucket. \<open>id_iter\<close> is the order in which Python iterates the
  set of ids.
\<close>

definition union_cluster :: "(nat list \<Rightarrow> nat list) \<Rightarrow> nat list \<Rightarrow> UnionFind \<Rightarrow> UnionFind option" where
  "union_cluster id_iter cluster uf =
     (if length cluster \<le> 1 then Some uf
      else let idx = min_list cluster in foldM (\<lambda>x u. uf_union u x idx) (id_iter cluster) uf)"

definition cluster_tables ::
  "(nat list \<Rightarrow> nat list) \<Rightarrow> hashtable list \<Rightarrow> UnionFind \<Rightarrow> UnionFind option" where
  "cluster_tables id_iter tables uf =
     foldM (\<lambda>table. foldM (\<lambda>(H, cluster). union_cluster id_iter cluster) table) tables uf"

text \<open>The map of the filtering stage: \<^verbatim>\<open>uf.find(idx)\<close> for every index, in order.\<close>

fun find_all :: "UnionFind \<Rightarrow> nat list \<Rightarrow> (UnionFind \<times> nat list) option" where
  "find_all uf [] = Some (uf, [])"
| "find_all uf (i # is) =
     uf_find uf i \<bind> (\<lambda>(uf1, r). find_all uf1 is \<bind> (\<lambda>(uf2, rs). Some (uf2, r # rs)))"

text \<open>\<^verbatim>\<open>ds.map(embed_func, ..., with_indices=True)\<close>: any failure fails the stage.\<close>

fun map_records :: "('a \<Rightarrow> nat \<Rightarrow> 'b option) \<Rightarrow> 'a list \<Rightarrow> nat \<Rightarrow> 'b list option" where
  "map_records f [] i = Some []"
| "map_records f (x # xs) i =
     (case f x i of None \<Rightarrow> None
      | Some y \<Rightarrow> (case map_records f xs (Suc i) of None \<Rightarrow> None | Some ys \<Rightarrow> Some (y # ys)))"

text \<open>\<^verbatim>\<open>HASH_RANGES\<close>, line 180: band \<open>i\<close> is the slice from \<open>i * R\<close> to \<open>(i + 1) * R\<close>.\<close>

definition HASH_RANGES :: "nat \<Rightarrow> nat \<Rightarrow> (nat \<times> nat) list" where
  "HASH_RANGES B R = map (\<lambda>i. (i * R, (i + 1) * R)) [0..<B]"

text \<open>
  The MinHashing stage, lines 208 to 222: \<^verbatim>\<open>embed_func\<close> on every record with its
  index.
\<close>

definition fingerprint_stage ::
  "(byte list \<Rightarrow> byte list) \<Rightarrow> (string list \<Rightarrow> string list) \<Rightarrow> endian \<Rightarrow> nat \<Rightarrow> nat \<Rightarrow>
   (nat \<times> nat) list \<Rightarrow> (u64 \<times> u64) list \<Rightarrow> string list \<Rightarrow> (byte list list \<times> nat) list option" where
  "fingerprint_stage sha1 set_iter host num_perm ngram hashranges permutations ds =
     map_records (\<lambda>content idx.
         embed_func sha1 set_iter host content idx num_perm ngram hashranges permutations)
       ds 0"

text \<open>
  The script of minhash.py. \<open>draw i\<close> is the \<open>i\<close>-th pair drawn from \<^verbatim>\<open>RNG\<close>;
  \<^verbatim>\<open>range\<close> raises on a step of \<open>0\<close>. The result is the cluster id of every record and
  \<^verbatim>\<open>final_data\<close>.
\<close>

definition minhash_main ::
  "(byte list \<Rightarrow> byte list) \<Rightarrow> (string list \<Rightarrow> string list) \<Rightarrow> (nat list \<Rightarrow> nat list) \<Rightarrow> endian \<Rightarrow>
   ((real \<Rightarrow> real) \<Rightarrow> real \<Rightarrow> real \<Rightarrow> real) \<Rightarrow> (nat \<Rightarrow> u64 \<times> u64) \<Rightarrow>
   real \<Rightarrow> nat \<Rightarrow> nat \<Rightarrow> nat \<Rightarrow> string list \<Rightarrow> (nat list \<times> string list) option" where
  "minhash_main sha1 set_iter id_iter host integrate draw threshold num_perm ngram batch_size ds =
     (let (B, R) = optimal_param integrate threshold num_perm 0.5 0.5;
          HASH_TABLES = replicate B [];
          PERMUTATIONS = map draw [0..<num_perm]
      in fingerprint_stage sha1 set_iter host num_perm ngram (HASH_RANGES B R) PERMUTATIONS ds
           \<bind> (\<lambda>embedded.
         if batch_size = 0 then None
         else cluster_tables id_iter (build_tables batch_size embedded HASH_TABLES) UnionFind_new
           \<bind> (\<lambda>uf.
         find_all uf [0..<length ds] \<bind> (\<lambda>(uf', clusters).
         Some (clusters,
           map fst (filter (\<lambda>(record, idx). clusters ! idx = idx) (zip ds [0..<length ds])))))))"

section \<open>The exact-hash engine (exact_hash.py)\<close>

text \<open>
  \<^verbatim>\<open>ds.shard(num_shards, index, contiguous=True)\<close> of the \<^verbatim>\<open>datasets\<close> library: the
  first \<open>len mod num_shards\<close> shards hold one record more than the others.
\<close>

definition shard :: "'a list \<Rightarrow> nat \<Rightarrow> nat \<Rightarrow> 'a list" where
  "shard ds num_shards index =
     (let d = length ds div num_shards;
          m = length ds mod num_shards;
          start = d * index + min index m;
          end = start + d + (if index < m then 1 else 0)
      in take (end - start) (drop start ds))"

text \<open>
  \<^verbatim>\<open>mp_exact_finder\<close> on the shared dict and the flags; a store outside the array
  raises.
\<close>

definition mp_exact_finder ::
  "(byte list \<Rightarrow> 'd) \<Rightarrow> string \<Rightarrow> nat \<Rightarrow> ('d \<rightharpoonup> bool) \<times> bool list \<Rightarrow> (('d \<rightharpoonup> bool) \<times> bool list) option" where
  "mp_exact_finder hash_func example idx st =
     (let h = hash_func (utf8_encode example); hash_dict = fst st; flags = snd st in
      if hash_dict h \<noteq> None then
        (if idx < length flags then Some (hash_dict, flags[idx := True]) else None)
      else Some (hash_dict(h \<mapsto> True), flags))"

definition process_shard ::
  "(byte list \<Rightarrow> 'd) \<Rightarrow> string list \<Rightarrow> nat \<Rightarrow> nat \<Rightarrow> ('d \<rightharpoonup> bool) \<times> bool list \<Rightarrow>
   (('d \<rightharpoonup> bool) \<times> bool list) option" where
  "process_shard hash_func ds NUM_SHARDS shard_idx st =
     (let ds_shard = shard ds NUM_SHARDS shard_idx;
          LEN_SHARD = length ds_shard
      in foldM (\<lambda>(example, batch_idx).
           mp_exact_finder hash_func example (LEN_SHARD * shard_idx + batch_idx))
           (zip ds_shard [0..<LEN_SHARD]) st)"

text \<open>
  The script of exact_hash.py, its records processed one after the other. A batch size
  of \<open>0\<close> raises at the division. The result is \<open>flags\<close> and the filtered dataset.
\<close>

definition exact_main ::
  "(byte list \<Rightarrow> 'd) \<Rightarrow> nat \<Rightarrow> string list \<Rightarrow> (bool list \<times> string list) option" where
  "exact_main hash_func batch_size ds =
     (if batch_size = 0 then None
      else
        let LEN_DATASET = length ds;
            flags = replicate LEN_DATASET False;
            NUM_SHARDS = (LEN_DATASET + batch_size - 1) div batch_size
        in foldM (process_shard hash_func ds NUM_SHARDS) [0..<NUM_SHARDS] (Map.empty, flags)
           \<bind> (\<lambda>(shared_hash_dict, flags').
             Some (flags',
               map fst (filter (\<lambda>(record, idx). \<not> flags' ! idx) (zip ds [0..<LEN_DATASET])))))"

section \<open>Notions used to state the properties\<close>

text \<open>
  An iteration order of a Python set built from the items \<open>xs\<close>: every item once, in
  some order.
\<close>

definition enumerates :: "('a list \<Rightarrow> 'a list) \<Rightarrow> bool" where
  "enumerates iter = (\<forall>xs. distinct (iter xs) \<and> set (iter xs) = set xs)"

text \<open>Two consecutive spaces somewhere in a string.\<close>

fun double_space :: "string \<Rightarrow> bool" where
  "double_space (a # b # s) = ((a = CHR '' '' \<and> b = CHR '' '') \<or> double_space (b # s))"
| "double_space _ = False"

text \<open>No leading space, no trailing space and no two consecutive spaces.\<close>

definition well_spaced :: "string \<Rightarrow> bool" where
  "well_spaced s =
     (\<not> (s \<noteq> [] \<and> hd s = CHR '' '') \<and> \<not> (s \<noteq> [] \<and> last s = CHR '' '') \<and> \<not> double_space s)"

text \<open>The big-endian encodings of a 64-bit and of a 32-bit unsigned integer.\<close>

definition be_bytes64 :: "u64 \<Rightarrow> byte list" where
  "be_bytes64 w = map (\<lambda>i. ucast (drop_bit (8 * (7 - i)) w)) [0..<8]"

definition be_bytes32 :: "u32 \<Rightarrow> byte list" where
  "be_bytes32 w = map (\<lambda>i. ucast (drop_bit (8 * (3 - i)) w)) [0..<4]"

text \<open>The column-wise minimum of a row and the running minimum.\<close>

abbreviation col_min :: "u64 list \<Rightarrow> u64 list \<Rightarrow> u64 list" where
  "col_min \<equiv> (\<lambda>row acc. map2 min row acc)"

text \<open>The ids filed under a key in one table.\<close>

definition bucket :: "hashtable \<Rightarrow> byte list \<Rightarrow> nat set" where
  "bucket tab H = (case map_of tab H of None \<Rightarrow> {} | Some ids \<Rightarrow> set ids)"

text \<open>The insertion loop without its batches.\<close>

definition index_all :: "(byte list list \<times> nat) list \<Rightarrow> hashtable list \<Rightarrow> hashtable list" where
  "index_all embedded tables = fold (\<lambda>(Hs, key). index_record Hs key) embedded tables"

text \<open>The band keys of a record: the first component of what \<open>embed_func\<close> returns.\<close>

definition band_keys ::
  "(byte list \<Rightarrow> byte list) \<Rightarrow> (string list \<Rightarrow> string list) \<Rightarrow> endian \<Rightarrow> string \<Rightarrow> nat \<Rightarrow> nat \<Rightarrow>
   (nat \<times> nat) list \<Rightarrow> (u64 \<times> u64) list \<Rightarrow> byte list list" where
  "band_keys sha1 set_iter host content num_perm ngram_size hashranges permutations =
     map (\<lambda>(start, end). byteswap_bytes host (take (end - start) (drop start
            (minhash_values sha1 set_iter content num_perm ngram_size permutations))))
       hashranges"

text \<open>
  The sweep of \<open>optimal_param\<close>: the candidates with \<open>b\<close> up to \<open>n\<close>, the order in which
  they are scanned, and what holds of the running optimum once the candidates \<open>S\<close> have
  been scanned.
\<close>

definition scanned_before :: "nat \<times> nat \<Rightarrow> nat \<times> nat \<Rightarrow> bool" where
  "scanned_before c d = (fst c < fst d \<or> (fst c = fst d \<and> snd c < snd d))"

definition candidates :: "nat \<Rightarrow> nat \<Rightarrow> (nat \<times> nat) set" where
  "candidates k n = {(b, r). 1 \<le> b \<and> b \<le> n \<and> 1 \<le> r \<and> r \<le> k div b}"

definition sweep_inv ::
  "(nat \<Rightarrow> nat \<Rightarrow> real) \<Rightarrow> (nat \<times> nat) set \<Rightarrow> real option \<times> nat \<times> nat \<Rightarrow> bool" where
  "sweep_inv e S st =
     (if S = {} then st = (None, (0, 0))
      else \<exists>b r. (b, r) \<in> S \<and> st = (Some (e b r), (b, r)) \<and>
             (\<forall>c\<in>S. e b r \<le> e (fst c) (snd c) \<and>
                (scanned_before c (b, r) \<longrightarrow> e b r < e (fst c) (snd c))))"

text \<open>
  Notions for reasoning about the union-find structure: every parent is at most its
  child; the root reached from an id by following parents; the parent map left by the
  path compression of \<open>find\<close>; and a later structure that keeps together what an earlier
  one had joined.
\<close>

definition decreasing :: "UnionFind \<Rightarrow> bool" where
  "decreasing parent = (\<forall>x. parent x \<le> x)"

function rep :: "UnionFind \<Rightarrow> nat \<Rightarrow> nat" where
  "rep parent x = (if parent x < x then rep parent (parent x) else x)"
  by pat_completeness auto
termination
  by (relation "measure snd") auto

declare rep.simps [simp del]

function compress :: "UnionFind \<Rightarrow> nat \<Rightarrow> UnionFind" where
  "compress parent x =
     (if parent x < x then (compress parent (parent x))(x := rep parent x) else parent)"
  by pat_completeness auto
termination
  by (relation "measure snd") auto

declare compress.simps [simp del]

definition refines :: "UnionFind \<Rightarrow> UnionFind \<Rightarrow> bool" where
  "refines p p' = (decreasing p' \<and> (\<forall>u v. rep p u = rep p v \<longrightarrow> rep p' u = rep p' v))"

text \<open>The ids of a bucket of two or more have one root.\<close>

definition joined :: "(nat list \<Rightarrow> nat list) \<Rightarrow> nat list \<Rightarrow> UnionFind \<Rightarrow> bool" where
  "joined id_iter cluster uf =
     (2 \<le> length cluster \<longrightarrow> (\<forall>x\<in>set (id_iter cluster). rep uf x = rep uf (min_list cluster)))"

text \<open>The keys of a table are distinct and no bucket lists an id twice.\<close>

definition table_inv :: "hashtable \<Rightarrow> bool" where
  "table_inv tab = (distinct (map fst tab) \<and> (\<forall>e\<in>set tab. distinct (snd e)))"

(*DEFS_END*)

section \<open>The shingler\<close>

lemma zip_star_windows:
  "0 < n \<Longrightarrow> zip_star (map (\<lambda>i. drop i s) [0..<n]) =
     map (\<lambda>j. take n (drop j s)) [0..<Suc (length s) - n]"
proof (induction s)
  case Nil
  then have "[] \<in> set (map (\<lambda>i. drop i ([]::'a list)) [0..<n])" by auto
  then show ?case using Nil by (subst zip_star.simps) simp
next
  case (Cons x s)
  show ?case
  proof (cases "n \<le> Suc (length s)")
    case False
    then have "drop (n - 1) (x # s) = []" by simp
    moreover have "n - 1 \<in> set [0..<n]" using Cons.prems by simp
    ultimately have "[] \<in> set (map (\<lambda>i. drop i (x # s)) [0..<n])"
      by (metis (no_types, lifting) image_eqI set_map)
    then show ?thesis using False by (subst zip_star.simps) simp
  next
    case True
    have ne: "map (\<lambda>i. drop i (x # s)) [0..<n] \<noteq> []" using Cons.prems by simp
    have nil: "[] \<notin> set (map (\<lambda>i. drop i (x # s)) [0..<n])" using True by auto
    have hds: "map hd (map (\<lambda>i. drop i (x # s)) [0..<n]) = take n (x # s)"
      using True by (intro nth_equalityI) (auto simp: hd_drop_conv_nth)
    have tls: "map tl (map (\<lambda>i. drop i (x # s)) [0..<n]) = map (\<lambda>i. drop i s) [0..<n]"
      by (simp add: drop_Suc tl_drop)
    have "zip_star (map (\<lambda>i. drop i (x # s)) [0..<n]) =
          take n (x # s) # zip_star (map (\<lambda>i. drop i s) [0..<n])"
      using ne nil by (subst zip_star.simps) (simp only: hds tls if_False simp_thms)
    also have "\<dots> = take n (x # s) # map (\<lambda>j. take n (drop j s)) [0..<Suc (length s) - n]"
      using Cons.IH [OF Cons.prems] by simp
    also have "\<dots> = map (\<lambda>j. take n (drop j (x # s))) [0..<Suc (length (x # s)) - n]"
    proof -
      have "[0..<Suc (length (x # s)) - n] = 0 # map Suc [0..<Suc (length s) - n]"
        using True by (simp add: upt_conv_Cons map_Suc_upt Suc_diff_le)
      then show ?thesis by (simp add: comp_def)
    qed
    finally show ?thesis .
  qed
qed

lemma ngrams_short: "length ts < m \<Longrightarrow> ngrams ts n m = []"
  by (simp add: ngrams_def)

lemma ngrams_whole: "m \<le> length ts \<Longrightarrow> length ts < n \<Longrightarrow> ngrams ts n m = [ts]"
  by (simp add: ngrams_def)

lemma ngrams_windows:
  "0 < n \<Longrightarrow> m \<le> length ts \<Longrightarrow> n \<le> length ts \<Longrightarrow>
   ngrams ts n m = map (\<lambda>j. take n (drop j ts)) [0..<length ts - n + 1]"
  by (simp add: ngrams_def zip_star_windows Suc_diff_le)

lemma ngrams_zero: "m \<le> length ts \<Longrightarrow> ngrams ts 0 m = []"
  by (simp add: ngrams_def zip_star.simps)

text \<open>
  C7. For a token sequence of length \<open>L\<close>, a size \<open>n \<ge> 1\<close> and a guard \<open>m\<close>, \<open>ngrams\<close>
  returns nothing when \<open>L < m\<close>, the whole sequence as its only n-gram when
  \<open>m \<le> L < n\<close>, and otherwise the \<open>L - n + 1\<close> contiguous windows of \<open>n\<close> tokens, in
  order. The tokens that \<open>embed_func\<close> hashes are the set of the rendered n-grams (guard
  5): under any iteration order of that set every distinct shingle occurs once.
\<close>

theorem shingler_cases:
  assumes "1 \<le> n"
  shows "(length ts < m \<longrightarrow> ngrams ts n m = []) \<and>
         (m \<le> length ts \<and> length ts < n \<longrightarrow> ngrams ts n m = [ts]) \<and>
         (m \<le> length ts \<and> n \<le> length ts \<longrightarrow>
            length (ngrams ts n m) = length ts - n + 1 \<and>
            ngrams ts n m = map (\<lambda>j. take n (drop j ts)) [0..<length ts - n + 1]) \<and>
         (enumerates set_iter \<longrightarrow>
            distinct (set_iter (shingle_strings content n)) \<and>
            set (set_iter (shingle_strings content n)) =
              join_space ` set (ngrams (NON_ALPHA_split content) n 5))"
  using assms
  by (auto simp: ngrams_short ngrams_whole ngrams_windows enumerates_def shingle_strings_def)

theorem shingler_cases_witness:
  "ngrams ''abcd'' 2 1 = [''ab'', ''bc'', ''cd''] \<and>
   distinct (remdups (shingle_strings ''a b a b a b'' 2)) \<and>
   set (remdups (shingle_strings ''a b a b a b'' 2)) =
     join_space ` set (ngrams (NON_ALPHA_split ''a b a b a b'') 2 5)"
proof -
  have e: "enumerates (remdups :: string list \<Rightarrow> string list)"
    by (simp add: enumerates_def)
  have u: "[0..<3] = [0, 1, 2]"
    by (simp add: upt_rec)
  show ?thesis
    using shingler_cases [of 2 "''abcd''" 1 remdups "''a b a b a b''"] e u by simp
qed

section \<open>Shingle rendering\<close>

lemma word_char_space [simp]: "\<not> word_char CHR '' ''"
  by (simp add: word_char_def)

lemma split_ne [simp]: "NON_ALPHA_split s \<noteq> []"
  by (induction s) auto

lemma split_word_chars: "t \<in> set (NON_ALPHA_split s) \<Longrightarrow> c \<in> set t \<Longrightarrow> word_char c"
proof (induction s arbitrary: t)
  case Nil then show ?case by simp
next
  case (Cons a s)
  show ?case
  proof (cases "word_char a")
    case True
    obtain u us where us: "NON_ALPHA_split s = u # us" by (cases "NON_ALPHA_split s") auto
    with True Cons.prems have "t = a # u \<or> t \<in> set us" by auto
    then show ?thesis
    proof
      assume "t = a # u"
      with Cons.prems(2) True Cons.IH [of u] us show ?thesis by auto
    next
      assume "t \<in> set us"
      with Cons.prems(2) Cons.IH [of t] us show ?thesis by auto
    qed
  next
    case False
    with Cons show ?thesis by auto
  qed
qed

lemma double_space_append:
  "CHR '' '' \<notin> set t \<Longrightarrow> double_space (t @ CHR '' '' # J) = ((J \<noteq> [] \<and> hd J = CHR '' '') \<or> double_space J)"
proof (induction t)
  case Nil
  show ?case by (cases J) auto
next
  case (Cons a t)
  then show ?case by (cases t) auto
qed

lemma join_space_empty: "join_space w = [] \<longleftrightarrow> w = [] \<or> w = [[]]"
  by (induction w rule: join_space.induct) auto

lemma well_spaced_join:
  "\<forall>t\<in>set w. CHR '' '' \<notin> set t \<Longrightarrow> well_spaced (join_space w) \<longleftrightarrow> (2 \<le> length w \<longrightarrow> [] \<notin> set w)"
proof (induction w rule: join_space.induct)
  case 1 then show ?case by (simp add: well_spaced_def)
next
  case (2 t)
  have "\<not> double_space t" using 2 by (induction t rule: double_space.induct) auto
  moreover have "t \<noteq> [] \<Longrightarrow> hd t \<noteq> CHR '' ''" "t \<noteq> [] \<Longrightarrow> last t \<noteq> CHR '' ''"
    using 2 by (auto dest: hd_in_set last_in_set)
  ultimately show ?case by (auto simp add: well_spaced_def)
next
  case (3 t u ts)
  let ?J = "join_space (u # ts)"
  have t: "CHR '' '' \<notin> set t" using 3 by simp
  have IH: "well_spaced ?J \<longleftrightarrow> (2 \<le> length (u # ts) \<longrightarrow> [] \<notin> set (u # ts))"
    using 3 by simp
  have lead: "hd (t @ CHR '' '' # ?J) = CHR '' '' \<longleftrightarrow> t = []"
    using t by (cases t) auto
  have "well_spaced (t @ CHR '' '' # ?J) \<longleftrightarrow> t \<noteq> [] \<and> ?J \<noteq> [] \<and> well_spaced ?J"
    unfolding well_spaced_def double_space_append [OF t] using lead by auto
  also have "\<dots> \<longleftrightarrow> [] \<notin> set (t # u # ts)"
    unfolding IH join_space_empty by (cases ts) auto
  finally show ?case by simp
qed

lemma split_all_word: "\<forall>c\<in>set t. word_char c \<Longrightarrow> NON_ALPHA_split t = [t]"
  by (induction t) auto

lemma split_append: "\<forall>c\<in>set t. word_char c \<Longrightarrow> \<not> word_char d \<Longrightarrow>
   NON_ALPHA_split (t @ d # rest) = t # NON_ALPHA_split rest"
  by (induction t) auto

lemma split_join: "w \<noteq> [] \<Longrightarrow> \<forall>t\<in>set w. \<forall>c\<in>set t. word_char c \<Longrightarrow> NON_ALPHA_split (join_space w) = w"
  by (induction w rule: join_space.induct) (auto simp: split_all_word split_append)

lemma ngrams_member:
  assumes "w \<in> set (ngrams ts n m)"
  shows "\<exists>j. j + n \<le> max n (length ts) \<and> w = take n (drop j ts) \<and> length w = min n (length ts) \<and> 0 < n"
proof (cases "n = 0")
  case True
  with assms show ?thesis by (auto simp: ngrams_def zip_star.simps split: if_splits)
next
  case n: False
  show ?thesis
  proof (cases "length ts < n")
    case True
    with assms have "w = ts" by (auto simp: ngrams_def split: if_splits)
    with True n show ?thesis by (intro exI [of _ 0]) auto
  next
    case False
    from assms have "\<not> length ts < m"
      by (auto simp: ngrams_short)
    then have "ngrams ts n m = map (\<lambda>j. take n (drop j ts)) [0..<length ts - n + 1]"
      by (intro ngrams_windows) (use False n in auto)
    then have "set (ngrams ts n m) = (\<lambda>j. take n (drop j ts)) ` {0..<length ts - n + 1}"
      by (simp only: set_map set_upt)
    with assms obtain j where "j < length ts - n + 1" "w = take n (drop j ts)"
      by auto
    with False n show ?thesis by (intro exI [of _ j]) auto
  qed
qed

lemma shingles_example: "shingle_strings '', a b c d'' 3 = [''  a'', '' a b'', ''a b c'', ''b c d'']"
proof -
  have u: "[0..<4] = [0, 1, 2, 3]" by (simp add: upt_rec)
  have sp: "NON_ALPHA_split '', a b c d'' = [[], [], ''a'', ''b'', ''c'', ''d'']"
    by (simp add: word_char_def)
  have "ngrams [[], [], ''a'', ''b'', ''c'', ''d''] 3 5 =
        map (\<lambda>j. take 3 (drop j [[], [], ''a'', ''b'', ''c'', ''d''])) [0..<length [[], [], ''a'', ''b'', ''c'', ''d''] - 3 + 1]"
    by (rule ngrams_windows) simp_all
  then show ?thesis
    unfolding shingle_strings_def sp by (simp add: u)
qed

text \<open>
  C9, as stated: every shingle string emitted by the fuzzy engine has no leading space,
  no trailing space and no two consecutive spaces. It fails on \<^verbatim>\<open>", a b c d"\<close>, whose
  first two tokens are empty: the first shingle is two spaces followed by \<^verbatim>\<open>a\<close>.
\<close>

theorem shingle_rendering_counterexample:
  "\<not> (\<forall>s\<in>set (shingle_strings '', a b c d'' 3). well_spaced s)"
  unfolding shingles_example by (simp add: well_spaced_def)

text \<open>
  C9, amended. Every shingle string emitted for a record is a contiguous window of the
  record's tokens (\<open>n\<close> of them, all of them when the record has fewer than \<open>n\<close>) joined
  by one space each: the tokens hold word characters only, so splitting the shingle gives
  the window back. It has no leading space, no trailing space and no two consecutive
  spaces exactly when it is a single token or none of its tokens is empty.
\<close>

theorem shingle_rendering:
  assumes "s \<in> set (shingle_strings content n)"
  shows "\<exists>w j. w = take n (drop j (NON_ALPHA_split content)) \<and>
           s = join_space w \<and>
           length w = min n (length (NON_ALPHA_split content)) \<and>
           (\<forall>t\<in>set w. \<forall>c\<in>set t. word_char c) \<and>
           NON_ALPHA_split s = w \<and>
           (well_spaced s \<longleftrightarrow> (2 \<le> length w \<longrightarrow> [] \<notin> set w))"
proof -
  let ?ts = "NON_ALPHA_split content"
  from assms obtain w where w: "w \<in> set (ngrams ?ts n 5)" and s: "s = join_space w"
    by (auto simp: shingle_strings_def)
  from ngrams_member [OF w] obtain j where
    j: "w = take n (drop j ?ts)" "length w = min n (length ?ts)" "0 < n"
    by blast
  have wc: "\<forall>t\<in>set w. \<forall>c\<in>set t. word_char c"
    using j(1) split_word_chars [of _ content] by (auto dest!: in_set_takeD in_set_dropD)
  then have sp: "\<forall>t\<in>set w. CHR '' '' \<notin> set t"
    using word_char_space by blast
  have "length ?ts \<noteq> 0" by simp
  with j(2,3) have "length w \<noteq> 0" by (simp add: min_def)
  then have ne: "w \<noteq> []" by simp
  have "NON_ALPHA_split s = w"
    unfolding s by (rule split_join [OF ne wc])
  moreover have "well_spaced s \<longleftrightarrow> (2 \<le> length w \<longrightarrow> [] \<notin> set w)"
    unfolding s by (rule well_spaced_join [OF sp])
  ultimately show ?thesis
    using j(1,2) s wc by (intro exI [of _ w] exI [of _ j] conjI)
qed

theorem shingle_rendering_witness:
  "''  a'' \<in> set (shingle_strings '', a b c d'' 3) \<and>
   ''  a'' = join_space [[], [], ''a''] \<and> \<not> well_spaced ''  a''"
proof -
  have mem: "''  a'' \<in> set (shingle_strings '', a b c d'' 3)"
    unfolding shingles_example by simp
  from shingle_rendering [OF mem] obtain w where
    w: "NON_ALPHA_split ''  a'' = w"
       "well_spaced ''  a'' \<longleftrightarrow> (2 \<le> length w \<longrightarrow> [] \<notin> set w)"
    by blast
  have "NON_ALPHA_split ''  a'' = [[], [], ''a'']"
    by (simp add: word_char_def)
  with w have "\<not> well_spaced ''  a''"
    by auto
  with mem show ?thesis by simp
qed

section \<open>MinHash arithmetic\<close>

lemma MAX_HASH_num: "MAX_HASH = 4294967295"
  by (simp add: MAX_HASH_def)

lemma MERSENNE_PRIME_num: "MERSENNE_PRIME = 2305843009213693951"
  by (simp add: MERSENNE_PRIME_def)

lemma unat_permuted_hash:
  "unat (permuted_hash h a b) =
     (((unat h * unat a + unat b) mod 2 ^ 64) mod (2 ^ 61 - 1)) AND (2 ^ 32 - 1)"
  by (simp add: permuted_hash_def MAX_HASH_num MERSENNE_PRIME_num unsigned_and_eq unat_mod
      unat_word_ariths mod_simps)

text \<open>
  C3, as stated: the slot computed for a 32-bit hash \<open>h\<close> and a pair \<open>(a, b)\<close> with
  \<open>1 \<le> a < P\<close> and \<open>0 \<le> b < P\<close> is the exact \<open>((h * a + b) mod P) & (2^32 - 1)\<close>. It
  fails at \<open>h = 16\<close>, \<open>a = 2^60\<close>, \<open>b = 0\<close>: the product is \<open>2^64\<close>, which wraps to \<open>0\<close>
  in unsigned 64-bit arithmetic, while the exact value is \<open>8\<close>.
\<close>

theorem permuted_hash_counterexample:
  "unat (permuted_hash 16 (2 ^ 60) 0) = 0 \<and>
   ((16 * 2 ^ 60 + 0) mod (2 ^ 61 - 1)) AND (2 ^ 32 - 1) = (8::nat)"
  by (simp add: unat_permuted_hash)

text \<open>
  C3, amended. The slot is \<open>(((h * a + b) mod 2^64) mod P) & (2^32 - 1)\<close>: the product and
  the sum wrap around modulo \<open>2^64\<close> before the reduction modulo \<open>P\<close>. It is the exact
  \<open>((h * a + b) mod P) & (2^32 - 1)\<close> whenever \<open>h * a + b < 2^64\<close>.
\<close>

theorem permuted_hash_arith:
  "unat (permuted_hash h a b) =
     (((unat h * unat a + unat b) mod 2 ^ 64) mod (2 ^ 61 - 1)) AND (2 ^ 32 - 1) \<and>
   (unat h * unat a + unat b < 2 ^ 64 \<longrightarrow>
      unat (permuted_hash h a b) = ((unat h * unat a + unat b) mod (2 ^ 61 - 1)) AND (2 ^ 32 - 1))"
  by (simp add: unat_permuted_hash)

theorem permuted_hash_arith_witness:
  "unat (3 :: u64) * unat (5 :: u64) + unat (7 :: u64) < 2 ^ 64 \<and>
   unat (permuted_hash 3 5 7) = 22"
  using permuted_hash_arith [of 3 5 7] by simp

section \<open>Signatures and band keys\<close>

lemma upt8: "[0..<8] = [0, 1, 2, 3, 4, 5, 6, 7]"
  by (simp add: upt_rec)

lemma upt4: "[0..<4] = [0, 1, 2, 3]"
  by (simp add: upt_rec)

lemma rev_le_bytes64: "rev (le_bytes64 w) = be_bytes64 w"
  by (simp add: le_bytes64_def be_bytes64_def upt8)

lemma byteswap_bytes_little: "byteswap_bytes LittleEndian vs = concat (map be_bytes64 vs)"
  by (simp add: byteswap_bytes_def memory_bytes_def rev_le_bytes64)

lemma length_be_bytes64 [simp]: "length (be_bytes64 w) = 8"
  by (simp add: be_bytes64_def)

lemma length_concat_be: "length (concat (map be_bytes64 vs)) = 8 * length vs"
  by (induction vs) auto

lemma be_bytes64_low:
  assumes "v \<le> MAX_HASH"
  shows "be_bytes64 v = [0, 0, 0, 0] @ be_bytes32 (ucast v)"
proof -
  have "v < 2 ^ 32"
    using assms by (simp add: MAX_HASH_num word_less_nat_alt word_le_nat_alt)
  then have eq: "v AND mask 32 = v"
    by (rule less_mask_eq)
  have hi: "\<not> bit v n" if "32 \<le> n" for n
  proof -
    have "bit v n = bit (v AND mask 32) n" by (simp only: eq)
    then show ?thesis using that by (simp add: bit_and_iff bit_mask_iff)
  qed
  have zero: "(ucast (drop_bit k v) :: byte) = 0" if "32 \<le> k" for k
    using that by (intro bit_word_eqI) (simp add: bit_ucast_iff bit_drop_bit_eq hi)
  have low: "(ucast (drop_bit k v) :: byte) = ucast (drop_bit k (ucast v :: u32))" if "k \<le> 24" for k
    using that by (intro bit_word_eqI) (auto simp add: bit_ucast_iff bit_drop_bit_eq)
  have low0: "(ucast v :: byte) = ucast (ucast v :: u32)"
    using low [of 0] by simp
  show ?thesis
    by (simp add: be_bytes64_def be_bytes32_def upt8 upt4 zero low low0 [symmetric])
qed

lemma length_fold_col_min:
  "\<forall>row\<in>set rows. length row = length init \<Longrightarrow> length (fold col_min rows init) = length init"
  by (induction rows arbitrary: init) auto

lemma fold_col_min_le:
  "\<forall>row\<in>set rows. length row = length init \<Longrightarrow> i < length init \<Longrightarrow>
   fold col_min rows init ! i \<le> init ! i"
proof (induction rows arbitrary: init)
  case Nil then show ?case by simp
next
  case (Cons row rows)
  have "fold col_min rows (map2 min row init) ! i \<le> map2 min row init ! i"
    using Cons.prems by (intro Cons.IH) auto
  also have "\<dots> \<le> init ! i" using Cons.prems by simp
  finally show ?case by simp
qed

lemma col_min_idem_on: "comp_fun_idem_on UNIV col_min"
proof
  fix x y :: "u64 list"
  show "col_min y \<circ> col_min x = col_min x \<circ> col_min y"
    by (rule ext) (auto intro!: nth_equalityI simp: min.left_commute)
  show "col_min x \<circ> col_min x = col_min x"
    by (rule ext) (auto intro!: nth_equalityI)
qed

lemma fold_col_min_set:
  assumes "set rows = set rows'"
  shows "fold col_min rows init = fold col_min rows' init"
proof -
  have "fold col_min rows init = Finite_Set.fold col_min init (set rows)"
    by (rule comp_fun_idem_on.fold_set_fold [OF col_min_idem_on, symmetric]) simp
  also have "\<dots> = fold col_min rows' init"
    unfolding assms by (rule comp_fun_idem_on.fold_set_fold [OF col_min_idem_on]) simp
  finally show ?thesis .
qed

lemma minhash_values_set:
  assumes "set (it1 (shingle_strings c1 n)) = set (it2 (shingle_strings c2 n))"
  shows "minhash_values sha1 it1 c1 k n perms = minhash_values sha1 it2 c2 k n perms"
  unfolding minhash_values_def Let_def
  by (rule fold_col_min_set) (simp add: assms image_image [symmetric] del: image_image)

lemma length_minhash_values:
  "length perms = k \<Longrightarrow> length (minhash_values sha1 it c k n perms) = k"
  unfolding minhash_values_def Let_def
  by (subst length_fold_col_min) auto

lemma minhash_values_le:
  assumes "length perms = k" "v \<in> set (minhash_values sha1 it c k n perms)"
  shows "v \<le> MAX_HASH"
proof -
  from assms(2) obtain i where i: "i < k" "v = minhash_values sha1 it c k n perms ! i"
    by (auto simp: in_set_conv_nth length_minhash_values [OF assms(1)])
  have "minhash_values sha1 it c k n perms ! i \<le> replicate k MAX_HASH ! i"
    unfolding minhash_values_def Let_def using assms(1) i(1)
    by (intro fold_col_min_le) auto
  with i show ?thesis by simp
qed

lemma minhash_values_empty:
  "it (shingle_strings c n) = [] \<Longrightarrow> minhash_values sha1 it c k n perms = replicate k MAX_HASH"
  by (simp add: minhash_values_def)

lemma embed_func_little:
  assumes "permutations \<noteq> []" "length permutations = num_perm"
  shows "embed_func sha1 set_iter LittleEndian content idx num_perm n (HASH_RANGES b r) permutations =
     Some (map (\<lambda>i. concat (map be_bytes64 (take r (drop (i * r)
              (minhash_values sha1 set_iter content num_perm n permutations))))) [0..<b], idx)"
  using assms by (simp add: embed_func_def HASH_RANGES_def byteswap_bytes_little comp_def)

lemma example_sig: "minhash_values sha1 (\<lambda>xs. xs) [] k n perms = replicate k MAX_HASH"
  by (rule minhash_values_empty) (simp add: shingle_strings_def ngrams_def)

text \<open>
  C4, as stated: each band key is the concatenation of the big-endian encodings of \<open>r\<close>
  32-bit entries, hence \<open>4 * r\<close> bytes long. It fails already for one band of one row:
  the array \<^verbatim>\<open>hashvalues\<close> has dtype \<^verbatim>\<open>uint64\<close>, and the key of the all-ones
  signature has 8 bytes.
\<close>

theorem band_key_encoding_counterexample:
  "embed_func (\<lambda>bs. []) (\<lambda>xs. xs) LittleEndian [] 0 1 1 (HASH_RANGES 1 1) [(1, 0)] =
     Some ([[0, 0, 0, 0, 255, 255, 255, 255]], 0) \<and>
   length [0, 0, 0, 0, 255, 255, 255, 255 :: byte] \<noteq> 4 * 1"
  by (simp add: embed_func_little example_sig MAX_HASH_num be_bytes64_def upt8 drop_bit_eq_div)

text \<open>
  C4, amended. On a little-endian host, for every record each of the \<open>b\<close> band keys
  produced by \<open>embed_func\<close> is the concatenation of the 8-byte big-endian encodings of the
  \<open>r\<close> consecutive signature entries of that band, which are 64-bit unsigned values
  below \<open>2^32\<close>: each entry is encoded as four zero bytes followed by the big-endian
  encoding of its 32-bit value, and a band key is \<open>8 * r\<close> bytes long (given
  \<open>b * r \<le> num_perm\<close>). The key is a function of the signature and of nothing else.
\<close>

theorem band_key_encoding:
  assumes "permutations \<noteq> []" "length permutations = num_perm"
  shows "\<exists>Hs. embed_func sha1 set_iter LittleEndian content idx num_perm n (HASH_RANGES b r)
             permutations = Some (Hs, idx) \<and>
           length Hs = b \<and>
           (\<forall>i<b. Hs ! i = concat (map be_bytes64 (take r (drop (i * r)
                      (minhash_values sha1 set_iter content num_perm n permutations)))) \<and>
                  (b * r \<le> num_perm \<longrightarrow> length (Hs ! i) = 8 * r)) \<and>
           (\<forall>v\<in>set (minhash_values sha1 set_iter content num_perm n permutations).
              be_bytes64 v = [0, 0, 0, 0] @ be_bytes32 (ucast v))"
proof -
  let ?sig = "minhash_values sha1 set_iter content num_perm n permutations"
  have len: "length ?sig = num_perm"
    by (rule length_minhash_values [OF assms(2)])
  have "length (concat (map be_bytes64 (take r (drop (i * r) ?sig)))) = 8 * r"
    if "i < b" "b * r \<le> num_perm" for i
  proof -
    have "Suc i * r \<le> b * r" using that(1) by (intro mult_le_mono1) simp
    with that(2) have "i * r + r \<le> num_perm" by simp
    then show ?thesis by (simp add: length_concat_be len)
  qed
  moreover have "be_bytes64 v = [0, 0, 0, 0] @ be_bytes32 (ucast v)" if "v \<in> set ?sig" for v
    by (rule be_bytes64_low [OF minhash_values_le [OF assms(2) that]])
  ultimately show ?thesis
    unfolding embed_func_little [OF assms] by simp
qed

theorem band_key_encoding_witness:
  "embed_func (\<lambda>bs. []) (\<lambda>xs. xs) LittleEndian [] 0 1 1 (HASH_RANGES 1 1) [(1, 0)] =
     Some ([be_bytes64 MAX_HASH], 0) \<and>
   length (be_bytes64 MAX_HASH) = 8 * 1 \<and>
   be_bytes64 MAX_HASH = [0, 0, 0, 0] @ be_bytes32 (ucast MAX_HASH)"
proof -
  have sig: "minhash_values (\<lambda>bs. []) (\<lambda>xs. xs) [] 1 1 [(1, 0)] = [MAX_HASH]"
    by (simp add: example_sig)
  have "[(1, 0)] \<noteq> ([] :: (u64 \<times> u64) list)" and "length [(1 :: u64, 0 :: u64)] = 1"
    by simp_all
  from band_key_encoding [OF this, of "\<lambda>bs. []" "\<lambda>xs. xs" "[]" 0 1 1 1]
  obtain Hs where
    "embed_func (\<lambda>bs. []) (\<lambda>xs. xs) LittleEndian [] 0 1 1 (HASH_RANGES 1 1) [(1, 0)] = Some (Hs, 0)"
    "length Hs = 1"
    "Hs ! 0 = concat (map be_bytes64 (take 1 (drop (0 * 1) [MAX_HASH])))"
    "length (Hs ! 0) = 8 * 1"
    "be_bytes64 MAX_HASH = [0, 0, 0, 0] @ be_bytes32 (ucast MAX_HASH)"
    unfolding sig by auto
  moreover from this(2) have "Hs = [Hs ! 0]"
    by (cases Hs) auto
  ultimately show ?thesis by simp
qed

section \<open>The LSH index\<close>

lemma bucket_table_add_same:
  "bucket (table_add H key tab) H = insert key (bucket tab H)"
proof (induction tab)
  case Nil
  show ?case by (simp add: bucket_def)
next
  case (Cons e tab)
  obtain K ids where e: "e = (K, ids)" by (cases e)
  show ?case
  proof (cases "K = H")
    case True
    then show ?thesis by (cases "key \<in> set ids") (auto simp: e bucket_def)
  next
    case False
    with Cons show ?thesis by (simp add: e bucket_def)
  qed
qed

lemma bucket_table_add_other:
  "H' \<noteq> H \<Longrightarrow> bucket (table_add H key tab) H' = bucket tab H'"
proof (induction tab)
  case Nil
  then show ?case by (simp add: bucket_def)
next
  case (Cons e tab)
  obtain K ids where e: "e = (K, ids)" by (cases e)
  from Cons show ?case by (cases "K = H") (simp_all add: e bucket_def)
qed

lemma bucket_table_add:
  "bucket (table_add H key tab) H' = (if H' = H then insert key (bucket tab H) else bucket tab H')"
  by (simp add: bucket_table_add_same bucket_table_add_other)

lemma bucket_entry:
  assumes "x \<in> bucket tab H"
  shows "\<exists>ids. (H, ids) \<in> set tab \<and> bucket tab H = set ids"
proof -
  from assms obtain ids where "map_of tab H = Some ids"
    by (auto simp: bucket_def split: option.splits)
  then show ?thesis by (auto simp: bucket_def dest: map_of_SomeD)
qed

lemma length_index_record [simp]: "length (index_record Hs key tables) = length tables"
  by (simp add: index_record_def)

lemma nth_index_record:
  "t < length tables \<Longrightarrow> index_record Hs key tables ! t =
     (if t < length Hs then table_add (Hs ! t) key (tables ! t) else tables ! t)"
  by (auto simp: index_record_def nth_append)

lemma length_index_all [simp]: "length (index_all embedded tables) = length tables"
  unfolding index_all_def by (induction embedded arbitrary: tables) auto

lemma bucket_index_all:
  "t < length tables \<Longrightarrow>
   bucket (index_all embedded tables ! t) H =
     bucket (tables ! t) H \<union> {key. \<exists>Hs. (Hs, key) \<in> set embedded \<and> t < length Hs \<and> Hs ! t = H}"
proof (induction embedded arbitrary: tables)
  case Nil then show ?case by (simp add: index_all_def)
next
  case (Cons e embedded)
  obtain Hs key where e: "e = (Hs, key)" by (cases e)
  have "index_all (e # embedded) tables = index_all embedded (index_record Hs key tables)"
    by (simp add: index_all_def e)
  then show ?case
    using Cons.prems Cons.IH [of "index_record Hs key tables"]
    by (auto simp: e nth_index_record bucket_table_add)
qed

lemma concat_batches_take:
  "concat (map (\<lambda>j. take bs (drop (j * bs) xs)) [0..<m]) = take (m * bs) xs"
proof (induction m)
  case 0 then show ?case by simp
next
  case (Suc m)
  have "take (Suc m * bs) xs = take (m * bs) xs @ take bs (drop (m * bs) xs)"
    by (simp only: mult_Suc add.commute [of bs] take_add)
  with Suc show ?case by simp
qed

lemma concat_batches:
  assumes "0 < bs"
  shows "concat (batches bs xs) = xs"
proof -
  have "length xs \<le> (length xs + bs - 1) div bs * bs"
  proof -
    have "(length xs + bs - 1) div bs * bs = (length xs + bs - 1) - (length xs + bs - 1) mod bs"
      by (simp add: minus_mod_eq_div_mult)
    moreover have "(length xs + bs - 1) mod bs \<le> bs - 1"
      using assms by (simp add: less_Suc_eq_le [symmetric])
    ultimately show ?thesis using assms by linarith
  qed
  then show ?thesis
    by (simp add: batches_def concat_batches_take)
qed

lemma fold_fold_concat: "fold (\<lambda>xs. fold f xs) xss s = fold f (concat xss) s"
  by (induction xss arbitrary: s) auto

lemma build_tables_index_all:
  "0 < bs \<Longrightarrow> build_tables bs embedded tables = index_all embedded tables"
  unfolding build_tables_def index_all_def
  by (simp add: fold_fold_concat concat_batches)

lemma embed_func_Some:
  "perms \<noteq> [] \<Longrightarrow> length perms = k \<Longrightarrow>
   embed_func sha1 it host c idx k n ranges perms =
     Some (band_keys sha1 it host c k n ranges perms, idx)"
  by (simp add: embed_func_def band_keys_def)

lemma embed_func_keys:
  "embed_func sha1 it host c idx k n ranges perms = Some (Hs, idx') \<Longrightarrow>
   Hs = band_keys sha1 it host c k n ranges perms \<and> idx' = idx"
  by (auto simp: embed_func_def band_keys_def split: if_splits)

lemma length_band_keys [simp]:
  "length (band_keys sha1 it host c k n ranges perms) = length ranges"
  by (simp add: band_keys_def)

lemma band_keys_cong:
  "set (it1 (shingle_strings c1 n)) = set (it2 (shingle_strings c2 n)) \<Longrightarrow>
   band_keys sha1 it1 host c1 k n ranges perms = band_keys sha1 it2 host c2 k n ranges perms"
  unfolding band_keys_def by (simp add: minhash_values_set [of it1 c1 n it2 c2])

lemma map_records_Some:
  "(\<And>m. m < length ds \<Longrightarrow> f (ds ! m) (i + m) = Some (g (ds ! m) (i + m))) \<Longrightarrow>
   map_records f ds i = Some (map (\<lambda>m. g (ds ! m) (i + m)) [0..<length ds])"
proof (induction ds arbitrary: i)
  case Nil then show ?case by simp
next
  case (Cons x xs)
  have "f x i = Some (g x i)" using Cons.prems [of 0] by simp
  moreover have "map_records f xs (Suc i) = Some (map (\<lambda>m. g (xs ! m) (Suc i + m)) [0..<length xs])"
    using Cons.prems [of "Suc m" for m] by (intro Cons.IH) simp
  moreover have "[0..<length (x # xs)] = 0 # map Suc [0..<length xs]"
    by (simp add: upt_conv_Cons map_Suc_upt del: upt_Suc)
  ultimately show ?case by (simp add: comp_def del: upt_Suc)
qed

lemma fingerprint_stage_Some:
  assumes "perms \<noteq> []" "length perms = k"
  shows "fingerprint_stage sha1 it host k n ranges perms ds =
     Some (map (\<lambda>m. (band_keys sha1 it host (ds ! m) k n ranges perms, m)) [0..<length ds])"
  unfolding fingerprint_stage_def
  using map_records_Some [of ds "\<lambda>c idx. embed_func sha1 it host c idx k n ranges perms" 0
      "\<lambda>c idx. (band_keys sha1 it host c k n ranges perms, idx)"]
  by (simp add: embed_func_Some [OF assms])

lemma fingerprint_stage_empty: "fingerprint_stage sha1 it host k n ranges perms [] = Some []"
  by (simp add: fingerprint_stage_def)

lemma bucket_fingerprints:
  assumes "t < B"
  shows "bucket (index_all (map (\<lambda>m. (keys m, m)) [0..<N]) (replicate B []) ! t) H =
     {m. m < N \<and> t < length (keys m) \<and> keys m ! t = H}"
proof -
  have "{key. \<exists>Hs. (Hs, key) \<in> set (map (\<lambda>m. (keys m, m)) [0..<N]) \<and> t < length Hs \<and> Hs ! t = H} =
        {m. m < N \<and> t < length (keys m) \<and> keys m ! t = H}"
    by (auto simp: image_iff)
  then show ?thesis
    using assms by (subst bucket_index_all) (simp_all add: bucket_def)
qed

lemma upt5: "[0..<5] = [0, 1, 2, 3, 4]"
  by (simp add: upt_rec)

lemma shingles_abab:
  "shingle_strings ''a b a b a b'' 2 = [''a b'', ''b a'', ''a b'', ''b a'', ''a b'']"
proof -
  have sp: "NON_ALPHA_split ''a b a b a b'' = [''a'', ''b'', ''a'', ''b'', ''a'', ''b'']"
    by (simp add: word_char_def)
  have "ngrams [''a'', ''b'', ''a'', ''b'', ''a'', ''b''] 2 5 =
        map (\<lambda>j. take 2 (drop j [''a'', ''b'', ''a'', ''b'', ''a'', ''b'']))
          [0..<length [''a'', ''b'', ''a'', ''b'', ''a'', ''b''] - 2 + 1]"
    by (rule ngrams_windows) simp_all
  then show ?thesis
    unfolding shingle_strings_def sp by (simp add: upt5)
qed

lemma shingles_baba:
  "shingle_strings ''b a b a b a'' 2 = [''b a'', ''a b'', ''b a'', ''a b'', ''b a'']"
proof -
  have sp: "NON_ALPHA_split ''b a b a b a'' = [''b'', ''a'', ''b'', ''a'', ''b'', ''a'']"
    by (simp add: word_char_def)
  have "ngrams [''b'', ''a'', ''b'', ''a'', ''b'', ''a''] 2 5 =
        map (\<lambda>j. take 2 (drop j [''b'', ''a'', ''b'', ''a'', ''b'', ''a'']))
          [0..<length [''b'', ''a'', ''b'', ''a'', ''b'', ''a''] - 2 + 1]"
    by (rule ngrams_windows) simp_all
  then show ?thesis
    unfolding shingle_strings_def sp by (simp add: upt5)
qed

text \<open>
  C5. The signature computed by \<open>embed_func\<close> depends on the content only through its
  set of shingles: whatever the order in which the set is iterated (two runs may differ
  in it), two records with equal shingle sets get the same signature and the same band
  keys, and in the index built from any dataset holding both they lie in a common bucket
  of every band.
\<close>

theorem signature_determinism:
  assumes "enumerates it1" "enumerates it2"
    and "set (shingle_strings c1 n) = set (shingle_strings c2 n)"
  shows "minhash_values sha1 it1 c1 k n perms = minhash_values sha1 it2 c2 k n perms \<and>
         map_option fst (embed_func sha1 it1 host c1 i k n ranges perms) =
           map_option fst (embed_func sha1 it2 host c2 j k n ranges perms) \<and>
         (\<forall>ds bs t. perms \<noteq> [] \<and> length perms = k \<and> 0 < bs \<and> i < length ds \<and> j < length ds \<and>
              ds ! i = c1 \<and> ds ! j = c2 \<and> t < length ranges \<longrightarrow>
            (\<exists>embedded H ids.
               fingerprint_stage sha1 it1 host k n ranges perms ds = Some embedded \<and>
               (H, ids) \<in> set (build_tables bs embedded (replicate (length ranges) []) ! t) \<and>
               i \<in> set ids \<and> j \<in> set ids))"
proof (intro conjI allI impI)
  have eq: "set (it1 (shingle_strings c1 n)) = set (it2 (shingle_strings c2 n))"
    using assms by (simp add: enumerates_def)
  show "minhash_values sha1 it1 c1 k n perms = minhash_values sha1 it2 c2 k n perms"
    using eq by (rule minhash_values_set [of it1 c1 n it2 c2])
  then show "map_option fst (embed_func sha1 it1 host c1 i k n ranges perms) =
      map_option fst (embed_func sha1 it2 host c2 j k n ranges perms)"
    by (simp add: embed_func_def)
next
  fix ds :: "string list" and bs t :: nat
  assume a: "perms \<noteq> [] \<and> length perms = k \<and> 0 < bs \<and> i < length ds \<and> j < length ds \<and>
              ds ! i = c1 \<and> ds ! j = c2 \<and> t < length ranges"
  let ?keys = "\<lambda>m. band_keys sha1 it1 host (ds ! m) k n ranges perms"
  let ?embedded = "map (\<lambda>m. (?keys m, m)) [0..<length ds]"
  let ?tab = "build_tables bs ?embedded (replicate (length ranges) []) ! t"
  have "set (it1 (shingle_strings c1 n)) = set (it1 (shingle_strings c2 n))"
    using assms by (simp add: enumerates_def)
  then have same: "?keys i = ?keys j"
    using a by (auto intro: band_keys_cong)
  have b: "bucket ?tab (?keys i ! t) = {m. m < length ds \<and> ?keys m ! t = ?keys i ! t}"
    using a by (simp add: build_tables_index_all bucket_fingerprints)
  then have "i \<in> bucket ?tab (?keys i ! t)" "j \<in> bucket ?tab (?keys i ! t)"
    using a same by auto
  with bucket_entry [of i ?tab "?keys i ! t"] obtain ids where
    "(?keys i ! t, ids) \<in> set ?tab" "i \<in> set ids" "j \<in> set ids"
    by auto
  moreover have "fingerprint_stage sha1 it1 host k n ranges perms ds = Some ?embedded"
    using a by (simp add: fingerprint_stage_Some)
  ultimately show "\<exists>embedded H ids.
       fingerprint_stage sha1 it1 host k n ranges perms ds = Some embedded \<and>
       (H, ids) \<in> set (build_tables bs embedded (replicate (length ranges) []) ! t) \<and>
       i \<in> set ids \<and> j \<in> set ids"
    by blast
qed

theorem signature_determinism_witness:
  "enumerates (remdups :: string list \<Rightarrow> string list) \<and>
   enumerates (\<lambda>xs :: string list. rev (remdups xs)) \<and>
   set (shingle_strings ''a b a b a b'' 2) = set (shingle_strings ''b a b a b a'' 2) \<and>
   minhash_values (\<lambda>bs. bs) remdups ''a b a b a b'' 2 2 [(3, 1), (5, 2)] =
     minhash_values (\<lambda>bs. bs) (\<lambda>xs. rev (remdups xs)) ''b a b a b a'' 2 2 [(3, 1), (5, 2)] \<and>
   map_option fst (embed_func (\<lambda>bs. bs) remdups LittleEndian ''a b a b a b'' 0 2 2
       (HASH_RANGES 2 1) [(3, 1), (5, 2)]) =
     map_option fst (embed_func (\<lambda>bs. bs) (\<lambda>xs. rev (remdups xs)) LittleEndian ''b a b a b a'' 1 2 2
       (HASH_RANGES 2 1) [(3, 1), (5, 2)])"
proof -
  have e1: "enumerates (remdups :: string list \<Rightarrow> string list)"
    by (simp add: enumerates_def)
  have e2: "enumerates (\<lambda>xs :: string list. rev (remdups xs))"
    by (simp add: enumerates_def)
  have s: "set (shingle_strings ''a b a b a b'' 2) = set (shingle_strings ''b a b a b a'' 2)"
    unfolding shingles_abab shingles_baba by auto
  from signature_determinism [OF e1 e2 s, of "\<lambda>bs. bs" 2 "[(3, 1), (5, 2)]" LittleEndian 0
      "HASH_RANGES 2 1" 1] e1 e2 s
  show ?thesis by blast
qed

section \<open>The parameter sweep\<close>

lemma sweep_inv_step:
  assumes "sweep_inv e S st" "\<forall>c\<in>S. scanned_before c (b, r)"
  shows "sweep_inv e (insert (b, r) S) (sweep_step e b r st)"
proof (cases "S = {}")
  case True
  with assms(1) have "st = (None, (0, 0))" by (simp add: sweep_inv_def)
  then show ?thesis
    by (simp add: sweep_inv_def sweep_step_def below_def scanned_before_def True)
next
  case False
  with assms(1) obtain b0 r0 where o: "(b0, r0) \<in> S" "st = (Some (e b0 r0), (b0, r0))"
    and m: "\<forall>c\<in>S. e b0 r0 \<le> e (fst c) (snd c) \<and>
                (scanned_before c (b0, r0) \<longrightarrow> e b0 r0 < e (fst c) (snd c))"
    by (auto simp: sweep_inv_def)
  show ?thesis
  proof (cases "e b r < e b0 r0")
    case True
    then have "sweep_step e b r st = (Some (e b r), (b, r))"
      by (simp add: sweep_step_def below_def o)
    moreover have "e b r \<le> e (fst c) (snd c) \<and> e b r < e (fst c) (snd c)" if "c \<in> S" for c
      using m that True by fastforce
    ultimately show ?thesis
      unfolding sweep_inv_def by (auto simp: scanned_before_def)
  next
    case False
    then have "sweep_step e b r st = st"
      by (simp add: sweep_step_def below_def o)
    moreover have "\<not> scanned_before (b, r) (b0, r0)"
      using assms(2) o(1) by (fastforce simp: scanned_before_def)
    ultimately show ?thesis
      unfolding sweep_inv_def using o m False by auto
  qed
qed

lemma sweep_inv_inner:
  assumes "sweep_inv e S st" "\<forall>c\<in>S. fst c < b"
  shows "sweep_inv e (S \<union> {(b, r) | r. 1 \<le> r \<and> r \<le> m}) (fold (sweep_step e b) [1..<m + 1] st)"
proof (induction m)
  case 0
  with assms(1) show ?case by simp
next
  case (Suc m)
  have "\<forall>c\<in>S \<union> {(b, r) | r. 1 \<le> r \<and> r \<le> m}. scanned_before c (b, Suc m)"
    using assms(2) by (auto simp: scanned_before_def)
  from sweep_inv_step [OF Suc this]
  have "sweep_inv e (insert (b, Suc m) (S \<union> {(b, r) | r. 1 \<le> r \<and> r \<le> m}))
          (sweep_step e b (Suc m) (fold (sweep_step e b) [1..<m + 1] st))" .
  moreover have "insert (b, Suc m) (S \<union> {(b, r) | r. 1 \<le> r \<and> r \<le> m}) =
      S \<union> {(b, r) | r. 1 \<le> r \<and> r \<le> Suc m}"
    by (auto simp: le_Suc_eq)
  ultimately show ?case by simp
qed

lemma sweep_inv_outer:
  "sweep_inv e (candidates k n)
     (fold (\<lambda>b. fold (sweep_step e b) [1..<k div b + 1]) [1..<n + 1] (None, (0, 0)))"
proof (induction n)
  case 0
  show ?case by (simp add: sweep_inv_def candidates_def)
next
  case (Suc n)
  have "\<forall>c\<in>candidates k n. fst c < Suc n"
    by (auto simp: candidates_def)
  from sweep_inv_inner [OF Suc this, of "k div Suc n"]
  have "sweep_inv e (candidates k n \<union> {(Suc n, r) | r. 1 \<le> r \<and> r \<le> k div Suc n})
     (fold (sweep_step e (Suc n)) [1..<k div Suc n + 1]
        (fold (\<lambda>b. fold (sweep_step e b) [1..<k div b + 1]) [1..<n + 1] (None, (0, 0))))" .
  moreover have "candidates k n \<union> {(Suc n, r) | r. 1 \<le> r \<and> r \<le> k div Suc n} = candidates k (Suc n)"
    by (auto simp: candidates_def le_Suc_eq)
  ultimately show ?case by simp
qed

lemma sweep_inv_sweep: "sweep_inv e (candidates k k) (sweep e k)"
  unfolding sweep_def by (rule sweep_inv_outer)

lemma sweep_result:
  assumes "1 \<le> k"
  shows "\<exists>b r. snd (sweep e k) = (b, r) \<and> (b, r) \<in> candidates k k \<and>
           (\<forall>c\<in>candidates k k. e b r \<le> e (fst c) (snd c) \<and>
              (scanned_before c (b, r) \<longrightarrow> e b r < e (fst c) (snd c)))"
proof -
  have "(1, 1) \<in> candidates k k" using assms by (simp add: candidates_def)
  then have "candidates k k \<noteq> {}" by blast
  with sweep_inv_sweep [of e k] show ?thesis
    unfolding sweep_inv_def by auto
qed

text \<open>
  C8. For every threshold, every \<open>num_perm = k \<ge> 1\<close> and all weights, \<open>optimal_param\<close>
  returns a pair \<open>(b, r)\<close> of the sweep (\<open>1 \<le> b \<le> k\<close>, \<open>1 \<le> r \<le> k div b\<close>, hence
  \<open>b * r \<le> k\<close>) whose weighted error is no larger than that of any candidate of the
  sweep and strictly smaller than that of every candidate scanned before it: ties go to
  the candidate scanned first. The integrator is a parameter and errors are real numbers.
\<close>

theorem optimal_param_minimal:
  assumes "1 \<le> k"
  shows "\<exists>b r. optimal_param integrate t k w\<^sub>p w\<^sub>n = (b, r) \<and>
           1 \<le> b \<and> 1 \<le> r \<and> b * r \<le> k \<and> b \<le> k \<and> r \<le> k div b \<and>
           (\<forall>b' r'. 1 \<le> b' \<and> b' \<le> k \<and> 1 \<le> r' \<and> r' \<le> k div b' \<longrightarrow>
              weighted_error integrate t w\<^sub>p w\<^sub>n b r \<le> weighted_error integrate t w\<^sub>p w\<^sub>n b' r' \<and>
              (b' < b \<or> b' = b \<and> r' < r \<longrightarrow>
                 weighted_error integrate t w\<^sub>p w\<^sub>n b r < weighted_error integrate t w\<^sub>p w\<^sub>n b' r'))"
proof -
  from sweep_result [OF assms, of "weighted_error integrate t w\<^sub>p w\<^sub>n"]
  obtain b r where br: "optimal_param integrate t k w\<^sub>p w\<^sub>n = (b, r)" "(b, r) \<in> candidates k k"
    and opt: "\<forall>c\<in>candidates k k.
       weighted_error integrate t w\<^sub>p w\<^sub>n b r \<le> weighted_error integrate t w\<^sub>p w\<^sub>n (fst c) (snd c) \<and>
       (scanned_before c (b, r) \<longrightarrow>
          weighted_error integrate t w\<^sub>p w\<^sub>n b r < weighted_error integrate t w\<^sub>p w\<^sub>n (fst c) (snd c))"
    unfolding optimal_param_def by blast
  from br(2) have r: "1 \<le> b" "b \<le> k" "1 \<le> r" "r \<le> k div b"
    by (auto simp: candidates_def)
  then have "b * r \<le> b * (k div b)" by simp
  also have "\<dots> \<le> k" by simp
  finally have "b * r \<le> k" .
  moreover have "weighted_error integrate t w\<^sub>p w\<^sub>n b r \<le> weighted_error integrate t w\<^sub>p w\<^sub>n b' r' \<and>
              (b' < b \<or> b' = b \<and> r' < r \<longrightarrow>
                 weighted_error integrate t w\<^sub>p w\<^sub>n b r < weighted_error integrate t w\<^sub>p w\<^sub>n b' r')"
    if "1 \<le> b' \<and> b' \<le> k \<and> 1 \<le> r' \<and> r' \<le> k div b'" for b' r'
  proof -
    from that have "(b', r') \<in> candidates k k" by (simp add: candidates_def)
    from opt [rule_format, OF this] show ?thesis by (simp add: scanned_before_def)
  qed
  ultimately show ?thesis using br(1) r by blast
qed

theorem optimal_param_minimal_witness:
  "(1::nat) \<le> 2 \<and>
   optimal_param (\<lambda>f a b. (b - a) * f ((a + b) / 2)) (1 / 2) 2 (1 / 2) (1 / 2) = (1, 1)"
proof -
  let ?q = "\<lambda>(f :: real \<Rightarrow> real) a b. (b - a) * f ((a + b) / 2)"
  have e: "weighted_error ?q (1 / 2) (1 / 2) (1 / 2) 1 1 = 1 / 8"
    "weighted_error ?q (1 / 2) (1 / 2) (1 / 2) 1 2 = 1 / 8"
    "weighted_error ?q (1 / 2) (1 / 2) (1 / 2) 2 1 = 1 / 8"
    by (simp_all add: weighted_error_def false_positive_probability_def
        false_negative_probability_def power2_eq_square)
  from optimal_param_minimal [of 2 ?q "1 / 2" "1 / 2" "1 / 2"]
  obtain b r where br: "optimal_param ?q (1 / 2) 2 (1 / 2) (1 / 2) = (b, r)"
    "1 \<le> b" "b \<le> 2" "1 \<le> r" "r \<le> 2 div b"
    and first: "1 < b \<or> 1 = b \<and> 1 < r \<longrightarrow>
       weighted_error ?q (1 / 2) (1 / 2) (1 / 2) b r < weighted_error ?q (1 / 2) (1 / 2) (1 / 2) 1 1"
    by force
  from br(2-5) have "(b, r) = (1, 1) \<or> (b, r) = (1, 2) \<or> (b, r) = (2, 1)"
    by (cases "b = 1") (auto simp: le_Suc_eq numeral_2_eq_2)
  with first e have "(b, r) = (1, 1)" by auto
  with br(1) show ?thesis by simp
qed

section \<open>Union-find: roots\<close>

lemma rep_le: "rep p x \<le> x"
proof (induction p x rule: rep.induct)
  case (1 p x)
  show ?case
  proof (cases "p x < x")
    case True
    with 1 have "rep p (p x) \<le> p x" by simp
    with True show ?thesis by (subst rep.simps) simp
  next
    case False
    then show ?thesis by (subst rep.simps) simp
  qed
qed

lemma rep_step: "p x < x \<Longrightarrow> rep p x = rep p (p x)"
  by (subst rep.simps) simp

lemma rep_stop: "\<not> p x < x \<Longrightarrow> rep p x = x"
  by (subst rep.simps) simp

lemma rep_not_less: "\<not> p (rep p x) < rep p x"
proof (induction p x rule: rep.induct)
  case (1 p x)
  then show ?case by (cases "p x < x") (simp_all add: rep_step rep_stop)
qed

lemma rep_rep [simp]: "rep p (rep p x) = rep p x"
  by (rule rep_stop) (rule rep_not_less)

lemma rep_root: "decreasing p \<Longrightarrow> p (rep p x) = rep p x"
  using rep_not_less [of p x] by (auto simp: decreasing_def le_less)

lemma rep_self_iff: "decreasing p \<Longrightarrow> rep p x = x \<longleftrightarrow> p x = x"
  by (metis rep_root rep_stop less_irrefl)

lemma rep_new [simp]: "rep UnionFind_new x = x"
  by (simp add: rep_stop UnionFind_new_def)

lemma decreasing_new [simp]: "decreasing UnionFind_new"
  by (simp add: decreasing_def UnionFind_new_def)

lemma rep_upd:
  assumes "decreasing q"
  shows "rep (q(x := rep q x)) y = rep q y"
proof -
  define q' where "q' = q(x := rep q x)"
  have at: "q' x = rep q x" and off: "\<And>z. z \<noteq> x \<Longrightarrow> q' z = q z"
    by (simp_all add: q'_def)
  have "rep q' y = rep q y"
  proof (induction y rule: less_induct)
    case (less y)
    show ?case
    proof (cases "y = x")
      case True
      show ?thesis
      proof (cases "rep q x < x")
        case r: True
        then have "rep q' x = rep q' (rep q x)" by (simp add: rep_step at)
        also have "\<dots> = rep q (rep q x)" using r True by (intro less) simp
        also have "\<dots> = rep q x" by simp
        finally show ?thesis unfolding True .
      next
        case False
        from False have e: "rep q x = x" using rep_le [of q x] by simp
        have "rep q' x = x" by (rule rep_stop) (simp add: e at)
        then show ?thesis unfolding True e .
      qed
    next
      case False
      show ?thesis
      proof (cases "q y < y")
        case True
        then have "rep q' y = rep q' (q y)" using False by (simp add: rep_step off)
        also have "\<dots> = rep q (q y)" using True by (intro less)
        finally show ?thesis using True by (simp add: rep_step)
      next
        case nl: False
        then show ?thesis using False by (simp add: rep_stop off)
      qed
    qed
  qed
  then show ?thesis by (simp only: q'_def)
qed

lemma decreasing_upd: "decreasing q \<Longrightarrow> r \<le> x \<Longrightarrow> decreasing (q(x := r))"
  by (simp add: decreasing_def)

lemma compress_props:
  "decreasing p \<Longrightarrow> decreasing (compress p x) \<and> (\<forall>y. rep (compress p x) y = rep p y)"
proof (induction p x rule: compress.induct)
  case (1 p x)
  show ?case
  proof (cases "p x < x")
    case True
    let ?q = "compress p (p x)"
    from 1 True have q: "decreasing ?q" "\<And>y. rep ?q y = rep p y" by simp_all
    have c: "compress p x = ?q(x := rep ?q x)"
      using True by (subst compress.simps) (simp add: q)
    have "decreasing (?q(x := rep ?q x))"
      by (rule decreasing_upd [OF q(1) rep_le])
    moreover have "\<forall>y. rep (?q(x := rep ?q x)) y = rep p y"
      using rep_upd [OF q(1), of x] q(2) by (simp only:) simp
    ultimately show ?thesis
      unfolding c by (rule conjI)
  next
    case False
    then have "compress p x = p" by (subst compress.simps) simp
    with 1 show ?thesis by simp
  qed
qed

lemma uf_find_Some:
  "decreasing p \<Longrightarrow> uf_find p x = Some (compress p x, rep p x)"
proof (induction p x rule: rep.induct)
  case (1 p x)
  show ?case
  proof (cases "p x < x")
    case True
    with 1 have "uf_find p (p x) = Some (compress p (p x), rep p (p x))" by simp
    with True show ?thesis
      by (subst uf_find.simps, subst compress.simps) (simp add: rep_step)
  next
    case False
    with 1(2) have "p x = x" by (auto simp: decreasing_def le_less)
    then show ?thesis
      by (subst uf_find.simps, subst compress.simps) (simp add: rep_stop)
  qed
qed

lemma rep_link:
  assumes "decreasing p" "p a = a" "p b = b" "b < a"
  shows "rep (p(a := b)) y = (if rep p y = a then b else rep p y)"
proof -
  define q where "q = p(a := b)"
  have at: "q a = b" and off: "\<And>z. z \<noteq> a \<Longrightarrow> q z = p z"
    by (simp_all add: q_def)
  have "rep q y = (if rep p y = a then b else rep p y)"
  proof (induction y rule: less_induct)
    case (less y)
    show ?case
    proof (cases "y = a")
      case True
      have "rep q a = rep q b" using assms(4) by (simp add: rep_step at)
      also have "\<dots> = b" using assms by (simp add: rep_stop off)
      finally have "rep q a = b" .
      moreover have "rep p a = a" using assms(2) by (simp add: rep_stop)
      ultimately show ?thesis unfolding True by simp
    next
      case False
      show ?thesis
      proof (cases "p y < y")
        case True
        then have "rep q y = rep q (p y)" using False by (simp add: rep_step off)
        also have "\<dots> = (if rep p (p y) = a then b else rep p (p y))" using True by (intro less)
        finally show ?thesis using True by (simp add: rep_step)
      next
        case nl: False
        then show ?thesis using False by (simp add: rep_stop off)
      qed
    qed
  qed
  then show ?thesis by (simp only: q_def)
qed

lemma uf_union_Some:
  assumes "decreasing p"
  shows "\<exists>p'. uf_union p x y = Some p' \<and> decreasing p' \<and>
           (\<forall>z. rep p' z = (if rep p z = max (rep p x) (rep p y) then min (rep p x) (rep p y)
                            else rep p z))"
proof -
  let ?p1 = "compress p x" and ?rx = "rep p x"
  have p1: "decreasing ?p1" "\<And>y. rep ?p1 y = rep p y"
    using compress_props [OF assms, of x] by simp_all
  let ?p2 = "compress ?p1 y" and ?ry = "rep p y"
  have p2: "decreasing ?p2" "\<And>z. rep ?p2 z = rep p z"
    using compress_props [OF p1(1), of y] p1(2) by simp_all
  have u: "uf_union p x y = Some (if ?rx = ?ry then ?p2 else ?p2(max ?rx ?ry := min ?rx ?ry))"
    by (simp add: uf_union_def uf_find_Some [OF assms] uf_find_Some [OF p1(1)] p1(2))
  show ?thesis
  proof (cases "?rx = ?ry")
    case True
    with u p2 show ?thesis by simp
  next
    case False
    have roots: "?p2 ?rx = ?rx" "?p2 ?ry = ?ry"
      using rep_root [OF p2(1), of x] rep_root [OF p2(1), of y] by (simp_all add: p2(2))
    have lt: "min ?rx ?ry < max ?rx ?ry" using False by auto
    have mm: "?p2 (max ?rx ?ry) = max ?rx ?ry" "?p2 (min ?rx ?ry) = min ?rx ?ry"
      using roots by (auto simp: max_def min_def)
    have "decreasing (?p2(max ?rx ?ry := min ?rx ?ry))"
      using lt by (intro decreasing_upd [OF p2(1)]) simp
    moreover have "rep (?p2(max ?rx ?ry := min ?rx ?ry)) z =
        (if rep p z = max ?rx ?ry then min ?rx ?ry else rep p z)" for z
      using rep_link [OF p2(1) mm lt, of z] by (simp add: p2(2))
    ultimately show ?thesis using u False by auto
  qed
qed

section \<open>Clustering\<close>

lemma refines_refl: "decreasing p \<Longrightarrow> refines p p"
  by (simp add: refines_def)

lemma refines_trans: "refines p q \<Longrightarrow> refines q r \<Longrightarrow> refines p r"
  unfolding refines_def by blast

lemma refines_decreasing: "refines p q \<Longrightarrow> decreasing q"
  by (simp add: refines_def)

lemma refines_same: "refines p q \<Longrightarrow> rep p u = rep p v \<Longrightarrow> rep q u = rep q v"
  unfolding refines_def by blast

lemma uf_union_refines:
  assumes "decreasing p"
  shows "\<exists>p'. uf_union p x y = Some p' \<and> refines p p' \<and> rep p' x = rep p' y"
proof -
  from uf_union_Some [OF assms, of x y] obtain p' where
    p': "uf_union p x y = Some p'" "decreasing p'"
    "\<And>z. rep p' z = (if rep p z = max (rep p x) (rep p y) then min (rep p x) (rep p y) else rep p z)"
    by blast
  have "rep p' x = min (rep p x) (rep p y)" "rep p' y = min (rep p x) (rep p y)"
    unfolding p'(3) by (auto simp: max_def min_def)
  moreover have "refines p p'"
    unfolding refines_def using p'(2) by (simp add: p'(3))
  ultimately show ?thesis using p'(1) by simp
qed

lemma foldM_refines:
  assumes step: "\<And>x p. decreasing p \<Longrightarrow> x \<in> set xs \<Longrightarrow> \<exists>p'. f x p = Some p' \<and> refines p p' \<and> J x p'"
    and mono: "\<And>x p p'. J x p \<Longrightarrow> refines p p' \<Longrightarrow> J x p'"
    and "decreasing p"
  shows "\<exists>p'. foldM f xs p = Some p' \<and> refines p p' \<and> (\<forall>x\<in>set xs. J x p')"
  using step assms(3)
proof (induction xs arbitrary: p)
  case Nil
  then show ?case by (simp add: refines_refl)
next
  case (Cons x xs)
  from Cons.prems(1) [OF Cons.prems(2), of x] obtain p1 where
    p1: "f x p = Some p1" "refines p p1" "J x p1" by auto
  have "\<exists>p'. foldM f xs p1 = Some p' \<and> refines p1 p' \<and> (\<forall>x\<in>set xs. J x p')"
    using Cons.prems(1) refines_decreasing [OF p1(2)] by (intro Cons.IH) auto
  then obtain p' where p': "foldM f xs p1 = Some p'" "refines p1 p'" "\<forall>x\<in>set xs. J x p'"
    by blast
  have "J x p'" by (rule mono [OF p1(3) p'(2)])
  with p1 p' show ?case by (auto intro: refines_trans)
qed

lemma joined_mono: "joined id_iter c p \<Longrightarrow> refines p p' \<Longrightarrow> joined id_iter c p'"
  unfolding joined_def by (auto dest: refines_same)

lemma union_cluster_Some:
  assumes "decreasing p"
  shows "\<exists>p'. union_cluster id_iter c p = Some p' \<and> refines p p' \<and> joined id_iter c p'"
proof (cases "length c \<le> 1")
  case True
  with assms show ?thesis by (simp add: union_cluster_def joined_def refines_refl)
next
  case False
  have "\<exists>p'. foldM (\<lambda>x u. uf_union u x (min_list c)) (id_iter c) p = Some p' \<and> refines p p' \<and>
          (\<forall>x\<in>set (id_iter c). rep p' x = rep p' (min_list c))"
    by (rule foldM_refines [OF _ _ assms]) (auto intro: uf_union_refines dest: refines_same)
  with False show ?thesis by (simp add: union_cluster_def joined_def)
qed

lemma cluster_table_Some:
  assumes "decreasing p"
  shows "\<exists>p'. foldM (\<lambda>(H, cluster). union_cluster id_iter cluster) table p = Some p' \<and>
           refines p p' \<and> (\<forall>e\<in>set table. joined id_iter (snd e) p')"
  by (rule foldM_refines [OF _ _ assms])
     (auto simp: split_def intro: union_cluster_Some joined_mono)

lemma cluster_tables_Some:
  assumes "decreasing p"
  shows "\<exists>p'. cluster_tables id_iter tables p = Some p' \<and> refines p p' \<and>
           (\<forall>table\<in>set tables. \<forall>e\<in>set table. joined id_iter (snd e) p')"
  unfolding cluster_tables_def
  by (rule foldM_refines [OF _ _ assms]) (auto intro: cluster_table_Some joined_mono)

lemma find_all_Some:
  "decreasing p \<Longrightarrow>
   \<exists>p'. find_all p ids = Some (p', map (rep p) ids) \<and> decreasing p' \<and> (\<forall>y. rep p' y = rep p y)"
proof (induction ids arbitrary: p)
  case Nil
  then show ?case by simp
next
  case (Cons i ids)
  let ?p1 = "compress p i"
  have p1: "decreasing ?p1" "\<And>y. rep ?p1 y = rep p y"
    using compress_props [OF Cons.prems, of i] by simp_all
  from Cons.IH [OF p1(1)] obtain p' where
    "find_all ?p1 ids = Some (p', map (rep ?p1) ids)" "decreasing p'" "\<forall>y. rep p' y = rep ?p1 y"
    by blast
  then show ?case
    by (simp add: uf_find_Some [OF Cons.prems] p1(2))
qed

lemma filter_with_index:
  "map fst (filter (\<lambda>(record, idx). P idx) (zip ds [0..<length ds])) =
   map ((!) ds) (filter P [0..<length ds])"
proof -
  have "zip ds [0..<length ds] = map (\<lambda>i. (ds ! i, i)) [0..<length ds]"
    by (intro nth_equalityI) auto
  then show ?thesis by (simp add: filter_map comp_def)
qed


lemma minhash_main_Some:
  assumes "1 \<le> num_perm" "1 \<le> batch_size"
    and opt: "optimal_param integrate threshold num_perm 0.5 0.5 = (B, R)"
  shows "\<exists>uf. cluster_tables id_iter
              (index_all (map (\<lambda>m. (band_keys sha1 set_iter host (ds ! m) num_perm ngram
                   (HASH_RANGES B R) (map draw [0..<num_perm]), m)) [0..<length ds])
                 (replicate B [])) UnionFind_new = Some uf \<and>
           refines UnionFind_new uf \<and>
           (\<forall>table\<in>set (index_all (map (\<lambda>m. (band_keys sha1 set_iter host (ds ! m) num_perm ngram
                   (HASH_RANGES B R) (map draw [0..<num_perm]), m)) [0..<length ds])
                 (replicate B [])). \<forall>e\<in>set table. joined id_iter (snd e) uf) \<and>
           minhash_main sha1 set_iter id_iter host integrate draw threshold num_perm ngram
             batch_size ds =
             Some (map (rep uf) [0..<length ds],
                   map ((!) ds) (filter (\<lambda>i. rep uf i = i) [0..<length ds]))"
proof -
  let ?perms = "map draw [0..<num_perm]"
  let ?embedded = "map (\<lambda>m. (band_keys sha1 set_iter host (ds ! m) num_perm ngram
                   (HASH_RANGES B R) ?perms, m)) [0..<length ds]"
  have perms: "?perms \<noteq> []" "length ?perms = num_perm"
    using assms(1) by auto
  have fp: "fingerprint_stage sha1 set_iter host num_perm ngram (HASH_RANGES B R) ?perms ds =
      Some ?embedded"
    by (rule fingerprint_stage_Some [OF perms])
  have bt: "build_tables batch_size ?embedded (replicate B []) = index_all ?embedded (replicate B [])"
    using assms(2) by (intro build_tables_index_all) simp
  from cluster_tables_Some [OF decreasing_new, of id_iter "index_all ?embedded (replicate B [])"]
  obtain uf where uf: "cluster_tables id_iter (index_all ?embedded (replicate B [])) UnionFind_new = Some uf"
    "refines UnionFind_new uf"
    "\<forall>table\<in>set (index_all ?embedded (replicate B [])). \<forall>e\<in>set table. joined id_iter (snd e) uf"
    by blast
  from find_all_Some [OF refines_decreasing [OF uf(2)], of "[0..<length ds]"]
  obtain uf' where fa: "find_all uf [0..<length ds] = Some (uf', map (rep uf) [0..<length ds])"
    by blast
  have flt: "filter (\<lambda>i. map (rep uf) [0..<length ds] ! i = i) [0..<length ds] =
      filter (\<lambda>i. rep uf i = i) [0..<length ds]"
    by (rule filter_cong) auto
  have "minhash_main sha1 set_iter id_iter host integrate draw threshold num_perm ngram
             batch_size ds =
        Some (map (rep uf) [0..<length ds],
              map fst (filter (\<lambda>(record, idx). map (rep uf) [0..<length ds] ! idx = idx)
                (zip ds [0..<length ds])))"
    using assms(2) opt by (simp add: minhash_main_def fp bt uf(1) fa)
  then show ?thesis
    using uf by (simp only: filter_with_index flt) simp
qed

lemma optimal_param_bands:
  assumes "1 \<le> k"
  shows "\<exists>B R. optimal_param integrate t k w\<^sub>p w\<^sub>n = (B, R) \<and> 1 \<le> B"
  using sweep_result [OF assms, of "weighted_error integrate t w\<^sub>p w\<^sub>n"]
  unfolding optimal_param_def candidates_def by auto

lemma ngrams_few_tokens: "length (NON_ALPHA_split c) < 5 \<Longrightarrow> shingle_strings c n = []"
  by (simp add: shingle_strings_def ngrams_short)

lemma enumerates_Nil: "enumerates it \<Longrightarrow> it [] = []"
  unfolding enumerates_def by (metis set_empty)

text \<open>
  C2. For every dataset (with \<open>num_perm \<ge> 1\<close> and \<open>batch_size \<ge> 1\<close>) the fuzzy pipeline
  returns; the cluster id \<^verbatim>\<open>uf.find(i)\<close> of every record \<open>i\<close> is at most \<open>i\<close>; the records
  kept are those with \<^verbatim>\<open>uf.find(i) == i\<close>; and the cluster id of a record is itself kept
  and is the least id of the record's cluster.
\<close>

theorem cluster_root_min:
  assumes "1 \<le> num_perm" "1 \<le> batch_size"
  shows "\<exists>clusters final_data.
           minhash_main sha1 set_iter id_iter host integrate draw threshold num_perm ngram
             batch_size ds = Some (clusters, final_data) \<and>
           length clusters = length ds \<and>
           (\<forall>i<length ds.
              clusters ! i \<le> i \<and>
              clusters ! (clusters ! i) = clusters ! i \<and>
              clusters ! i = Min {j. j < length ds \<and> clusters ! j = clusters ! i}) \<and>
           final_data = map ((!) ds) (filter (\<lambda>i. clusters ! i = i) [0..<length ds])"
proof -
  obtain B R where opt: "optimal_param integrate threshold num_perm 0.5 0.5 = (B, R)"
    by (cases "optimal_param integrate threshold num_perm 0.5 0.5")
  from minhash_main_Some [OF assms opt, of id_iter sha1 set_iter host ds ngram draw]
  obtain uf where uf: "refines UnionFind_new uf"
    and run: "minhash_main sha1 set_iter id_iter host integrate draw threshold num_perm ngram
             batch_size ds =
             Some (map (rep uf) [0..<length ds],
                   map ((!) ds) (filter (\<lambda>i. rep uf i = i) [0..<length ds]))"
    by blast
  let ?clusters = "map (rep uf) [0..<length ds]"
  have nth: "?clusters ! i = rep uf i" if "i < length ds" for i
    using that by simp
  have props: "?clusters ! i \<le> i \<and> ?clusters ! (?clusters ! i) = ?clusters ! i \<and>
      ?clusters ! i = Min {j. j < length ds \<and> ?clusters ! j = ?clusters ! i}"
    if i: "i < length ds" for i
  proof -
    let ?r = "rep uf i"
    have r: "?r \<le> i" by (rule rep_le)
    then have rl: "?r < length ds" using i by simp
    have cl: "{j. j < length ds \<and> ?clusters ! j = ?clusters ! i} = {j. j < length ds \<and> rep uf j = ?r}"
      using i by auto
    have "Min {j. j < length ds \<and> rep uf j = ?r} = ?r"
    proof (rule Min_eqI)
      show "finite {j. j < length ds \<and> rep uf j = ?r}" by simp
      show "?r \<in> {j. j < length ds \<and> rep uf j = ?r}" using rl by simp
      show "?r \<le> j" if "j \<in> {j. j < length ds \<and> rep uf j = ?r}" for j
        using that rep_le [of uf j] by auto
    qed
    then show ?thesis
      unfolding cl using r rl i by simp
  qed
  have "filter (\<lambda>i. ?clusters ! i = i) [0..<length ds] = filter (\<lambda>i. rep uf i = i) [0..<length ds]"
    by (rule filter_cong) auto
  then show ?thesis
    using run props by (intro exI [of _ ?clusters] exI conjI allI impI) simp_all
qed

theorem cluster_root_min_witness:
  "minhash_main (\<lambda>bs. bs) remdups remdups LittleEndian (\<lambda>f a b. (b - a) * f ((a + b) / 2))
     (\<lambda>i. (3, 1)) (1 / 2) 1 2 1 [''a'', ''b c d e f g'', ''b''] =
     Some ([0, 1, 0], [''a'', ''b c d e f g'']) \<and>
   [0, 1, 0 :: nat] ! 2 =
     Min {j. j < length [''a'', ''b c d e f g'', ''b''] \<and> [0, 1, 0 :: nat] ! j = [0, 1, 0] ! 2}"
proof -
  let ?ds = "[''a'', ''b c d e f g'', ''b'']"
  have ev: "minhash_main (\<lambda>bs. bs) remdups remdups LittleEndian
      (\<lambda>f a b. (b - a) * f ((a + b) / 2)) (\<lambda>i. (3, 1)) (1 / 2) 1 2 1 ?ds =
      Some ([0, 1, 0], [''a'', ''b c d e f g''])"
    by code_simp
  have "(1::nat) \<le> 1" by simp
  from cluster_root_min [OF this this, of "\<lambda>bs. bs" remdups remdups LittleEndian
      "\<lambda>f a b. (b - a) * f ((a + b) / 2)" "\<lambda>i. (3, 1)" "1 / 2" 2 ?ds]
  obtain clusters final_data where
    run: "minhash_main (\<lambda>bs. bs) remdups remdups LittleEndian
      (\<lambda>f a b. (b - a) * f ((a + b) / 2)) (\<lambda>i. (3, 1)) (1 / 2) 1 2 1 ?ds =
      Some (clusters, final_data)"
    and p: "\<forall>i<length ?ds. clusters ! i \<le> i \<and> clusters ! (clusters ! i) = clusters ! i \<and>
              clusters ! i = Min {j. j < length ?ds \<and> clusters ! j = clusters ! i}"
    by blast
  from run ev have c: "clusters = [0, 1, 0]" by simp
  have "2 < length ?ds" by simp
  with p have "clusters ! 2 = Min {j. j < length ?ds \<and> clusters ! j = clusters ! 2}"
    by blast
  then have "[0, 1, 0 :: nat] ! 2 = Min {j. j < length ?ds \<and> [0, 1, 0 :: nat] ! j = [0, 1, 0] ! 2}"
    unfolding c .
  with ev show ?thesis by (rule conjI)
qed

text \<open>
  C10. A record whose split yields fewer than 5 tokens has no shingle and the all-ones
  signature; all such records have the same band keys whatever the bands; and (with
  \<open>num_perm \<ge> 1\<close>, so that there is a band) every such record with a lower-id record of
  the same kind before it is dropped, whatever the two contents are.
\<close>

theorem short_records_collapse:
  assumes "1 \<le> num_perm" "1 \<le> batch_size" "enumerates set_iter" "enumerates id_iter"
  shows "\<exists>clusters final_data.
           minhash_main sha1 set_iter id_iter host integrate draw threshold num_perm ngram
             batch_size ds = Some (clusters, final_data) \<and>
           final_data = map ((!) ds) (filter (\<lambda>i. clusters ! i = i) [0..<length ds]) \<and>
           (\<forall>i<length ds. length (NON_ALPHA_split (ds ! i)) < 5 \<longrightarrow>
              set_iter (shingle_strings (ds ! i) ngram) = [] \<and>
              minhash_values sha1 set_iter (ds ! i) num_perm ngram (map draw [0..<num_perm]) =
                replicate num_perm MAX_HASH \<and>
              (\<forall>j<length ds. length (NON_ALPHA_split (ds ! j)) < 5 \<longrightarrow>
                 (\<forall>hashranges.
                    map_option fst (embed_func sha1 set_iter host (ds ! i) i num_perm ngram
                      hashranges (map draw [0..<num_perm])) =
                    map_option fst (embed_func sha1 set_iter host (ds ! j) j num_perm ngram
                      hashranges (map draw [0..<num_perm]))) \<and>
                 (j < i \<longrightarrow> clusters ! i \<noteq> i)))"
proof -
  let ?perms = "map draw [0..<num_perm]"
  from optimal_param_bands [OF assms(1)] obtain B R where
    opt: "optimal_param integrate threshold num_perm 0.5 0.5 = (B, R)" and B: "1 \<le> B"
    by blast
  let ?keys = "\<lambda>m. band_keys sha1 set_iter host (ds ! m) num_perm ngram (HASH_RANGES B R) ?perms"
  let ?tables = "index_all (map (\<lambda>m. (?keys m, m)) [0..<length ds]) (replicate B [])"
  from minhash_main_Some [OF assms(1,2) opt, of id_iter sha1 set_iter host ds ngram draw]
  obtain uf where uf: "refines UnionFind_new uf"
    and joined: "\<forall>table\<in>set ?tables. \<forall>e\<in>set table. joined id_iter (snd e) uf"
    and run: "minhash_main sha1 set_iter id_iter host integrate draw threshold num_perm ngram
             batch_size ds =
             Some (map (rep uf) [0..<length ds],
                   map ((!) ds) (filter (\<lambda>i. rep uf i = i) [0..<length ds]))"
    by blast
  let ?clusters = "map (rep uf) [0..<length ds]"
  have empty: "set_iter (shingle_strings (ds ! i) ngram) = []"
    if "length (NON_ALPHA_split (ds ! i)) < 5" for i
    using that by (simp add: ngrams_few_tokens enumerates_Nil [OF assms(3)])
  have sig: "minhash_values sha1 set_iter (ds ! i) num_perm ngram ?perms = replicate num_perm MAX_HASH"
    if "length (NON_ALPHA_split (ds ! i)) < 5" for i
    using empty [OF that] by (rule minhash_values_empty [of set_iter "ds ! i" ngram])
  have dropped: "?clusters ! i \<noteq> i"
    if i: "i < length ds" "length (NON_ALPHA_split (ds ! i)) < 5"
      and j: "j < length ds" "length (NON_ALPHA_split (ds ! j)) < 5" and ji: "j < i" for i j
  proof -
    have k: "?keys i = ?keys j"
      unfolding band_keys_def by (simp add: sig [OF i(2)] sig [OF j(2)])
    have len: "length ?tables = B" by simp
    have t0: "?tables ! 0 \<in> set ?tables"
      using B by (intro nth_mem) simp
    have "bucket (?tables ! 0) (?keys i ! 0) =
        {m. m < length ds \<and> 0 < length (?keys m) \<and> ?keys m ! 0 = ?keys i ! 0}"
      using B by (intro bucket_fingerprints) simp
    then have "i \<in> bucket (?tables ! 0) (?keys i ! 0)" "j \<in> bucket (?tables ! 0) (?keys i ! 0)"
      using i(1) j(1) k B by (simp_all add: HASH_RANGES_def)
    with bucket_entry [of i "?tables ! 0" "?keys i ! 0"] obtain c where
      c: "(?keys i ! 0, c) \<in> set (?tables ! 0)" "i \<in> set c" "j \<in> set c"
      by auto
    have "card {i, j} \<le> card (set c)"
      using c(2,3) by (intro card_mono) auto
    also have "\<dots> \<le> length c" by (rule card_length)
    finally have "2 \<le> length c" using ji by simp
    moreover have "joined id_iter c uf"
      using joined t0 c(1) by force
    moreover have "set (id_iter c) = set c"
      using assms(4) by (simp add: enumerates_def)
    ultimately have "rep uf i = rep uf (min_list c)" "rep uf j = rep uf (min_list c)"
      using c(2,3) by (simp_all add: joined_def)
    then have "rep uf i = rep uf j" by simp
    also have "\<dots> \<le> j" by (rule rep_le)
    finally show ?thesis using ji i(1) by simp
  qed
  have keys_eq: "map_option fst (embed_func sha1 set_iter host (ds ! i) i num_perm ngram
                      hashranges ?perms) =
                 map_option fst (embed_func sha1 set_iter host (ds ! j) j num_perm ngram
                      hashranges ?perms)"
    if "length (NON_ALPHA_split (ds ! i)) < 5" "length (NON_ALPHA_split (ds ! j)) < 5"
    for i j hashranges
    by (simp add: embed_func_def sig [OF that(1)] sig [OF that(2)])
  have "filter (\<lambda>i. ?clusters ! i = i) [0..<length ds] = filter (\<lambda>i. rep uf i = i) [0..<length ds]"
    by (rule filter_cong) auto
  then have final: "map ((!) ds) (filter (\<lambda>i. rep uf i = i) [0..<length ds]) =
      map ((!) ds) (filter (\<lambda>i. ?clusters ! i = i) [0..<length ds])"
    by simp
  show ?thesis
  proof (intro exI conjI allI impI)
    show "minhash_main sha1 set_iter id_iter host integrate draw threshold num_perm ngram
        batch_size ds =
        Some (?clusters, map ((!) ds) (filter (\<lambda>i. rep uf i = i) [0..<length ds]))"
      by (rule run)
    show "map ((!) ds) (filter (\<lambda>i. rep uf i = i) [0..<length ds]) =
        map ((!) ds) (filter (\<lambda>i. ?clusters ! i = i) [0..<length ds])"
      by (rule final)
  next
    fix i assume "i < length ds" and s: "length (NON_ALPHA_split (ds ! i)) < 5"
    show "set_iter (shingle_strings (ds ! i) ngram) = []"
      by (rule empty [OF s])
    show "minhash_values sha1 set_iter (ds ! i) num_perm ngram ?perms = replicate num_perm MAX_HASH"
      by (rule sig [OF s])
  next
    fix i j hashranges
    assume "i < length ds" "length (NON_ALPHA_split (ds ! i)) < 5"
      "j < length ds" "length (NON_ALPHA_split (ds ! j)) < 5"
    then show "map_option fst (embed_func sha1 set_iter host (ds ! i) i num_perm ngram
                      hashranges ?perms) =
                 map_option fst (embed_func sha1 set_iter host (ds ! j) j num_perm ngram
                      hashranges ?perms)"
      by (intro keys_eq) assumption+
  next
    fix i j
    assume "i < length ds" "length (NON_ALPHA_split (ds ! i)) < 5"
      "j < length ds" "length (NON_ALPHA_split (ds ! j)) < 5" "j < i"
    then show "?clusters ! i \<noteq> i"
      by (rule dropped)
  qed
qed

theorem short_records_collapse_witness:
  "minhash_main (\<lambda>bs. bs) remdups remdups LittleEndian (\<lambda>f a b. (b - a) * f ((a + b) / 2))
     (\<lambda>i. (3, 1)) (1 / 2) 1 2 1 [''a'', ''b c d e f g'', ''b''] =
     Some ([0, 1, 0], [''a'', ''b c d e f g'']) \<and>
   length (NON_ALPHA_split ''a'') < 5 \<and> length (NON_ALPHA_split ''b'') < 5 \<and>
   [0, 1, 0 :: nat] ! 2 \<noteq> 2"
proof -
  let ?ds = "[''a'', ''b c d e f g'', ''b'']"
  have ev: "minhash_main (\<lambda>bs. bs) remdups remdups LittleEndian
      (\<lambda>f a b. (b - a) * f ((a + b) / 2)) (\<lambda>i. (3, 1)) (1 / 2) 1 2 1 ?ds =
      Some ([0, 1, 0], [''a'', ''b c d e f g''])"
    by code_simp
  have e: "enumerates (remdups :: string list \<Rightarrow> string list)"
    "enumerates (remdups :: nat list \<Rightarrow> nat list)"
    by (simp_all add: enumerates_def)
  have s: "length (NON_ALPHA_split ''a'') < 5" "length (NON_ALPHA_split ''b'') < 5"
    by (simp_all add: word_char_def)
  have "(1::nat) \<le> 1" by simp
  from short_records_collapse [OF this this e, of "\<lambda>bs. bs" LittleEndian
      "\<lambda>f a b. (b - a) * f ((a + b) / 2)" "\<lambda>i. (3, 1)" "1 / 2" 2 ?ds]
  obtain clusters final_data where
    run: "minhash_main (\<lambda>bs. bs) remdups remdups LittleEndian
      (\<lambda>f a b. (b - a) * f ((a + b) / 2)) (\<lambda>i. (3, 1)) (1 / 2) 1 2 1 ?ds =
      Some (clusters, final_data)"
    and p: "\<forall>i<length ?ds. length (NON_ALPHA_split (?ds ! i)) < 5 \<longrightarrow>
              (\<forall>j<length ?ds. length (NON_ALPHA_split (?ds ! j)) < 5 \<longrightarrow>
                 (j < i \<longrightarrow> clusters ! i \<noteq> i))"
    by blast
  from run ev have c: "clusters = [0, 1, 0]" by simp
  have "2 < length ?ds" "0 < length ?ds" "?ds ! 2 = ''b''" "?ds ! 0 = ''a''" "(0::nat) < 2"
    by simp_all
  with p s have "clusters ! 2 \<noteq> 2"
    by metis
  then have "[0, 1, 0 :: nat] ! 2 \<noteq> 2"
    unfolding c .
  with ev s show ?thesis by (intro conjI)
qed

section \<open>The exact-hash engine\<close>

text \<open>
  C1. The claim: exactly one record id per digest ends with \<open>flags[i] = false\<close>, the
  smallest one. On three records \<^verbatim>\<open>a\<close>, \<^verbatim>\<open>b\<close>, \<^verbatim>\<open>a\<close> with a batch size of 2 (the digest
  being the content itself) the code makes two shards of 2 and 1 records; the repeated
  \<^verbatim>\<open>a\<close>, record 2, is the first record of shard 1, whose length is 1, so the flag is
  stored at index \<open>1 * 1 + 0 = 1\<close>: record 1, the only \<^verbatim>\<open>b\<close>, is dropped and both
  \<^verbatim>\<open>a\<close> are kept.
\<close>

theorem exact_shard_index:
  "exact_main (\<lambda>bs. bs) 2 [''a'', ''b'', ''a''] = Some ([False, True, False], [''a'', ''a''])"
  by code_simp

text \<open>
  C6. The claim: the pipeline run on its own output returns that output. The output of
  the exact pipeline on the dataset above still holds \<^verbatim>\<open>a\<close> twice, and a second run, now
  with a single shard, drops one of them.
\<close>

theorem exact_not_idempotent:
  "exact_main (\<lambda>bs. bs) 2 [''a'', ''b'', ''a''] = Some ([False, True, False], [''a'', ''a'']) \<and>
   exact_main (\<lambda>bs. bs) 2 [''a'', ''a''] = Some ([False, True], [''a''])"
  by code_simp

section \<open>Idempotence of the fuzzy pipeline\<close>

lemma fst_table_add: "fst ` set (table_add H key tab) = insert H (fst ` set tab)"
proof (induction tab)
  case Nil
  show ?case by simp
next
  case (Cons e tab)
  obtain K ids where e: "e = (K, ids)" by (cases e)
  show ?case
  proof (cases "K = H")
    case True
    then show ?thesis by (simp add: e insert_absorb)
  next
    case False
    then show ?thesis by (simp add: e Cons.IH insert_commute)
  qed
qed

lemma table_inv_add: "table_inv tab \<Longrightarrow> table_inv (table_add H key tab)"
proof (induction tab)
  case Nil
  then show ?case by (simp add: table_inv_def)
next
  case (Cons e tab)
  obtain K ids where e: "e = (K, ids)" by (cases e)
  from Cons.prems have t: "table_inv tab" and K: "K \<notin> fst ` set tab" and d: "distinct ids"
    by (auto simp: table_inv_def e)
  show ?case
  proof (cases "K = H")
    case True
    with Cons.prems show ?thesis by (auto simp: table_inv_def e)
  next
    case False
    from Cons.IH [OF t] have "table_inv (table_add H key tab)" .
    moreover have "K \<notin> fst ` set (table_add H key tab)"
      using K False by (simp add: fst_table_add)
    ultimately show ?thesis
      using False d by (auto simp: table_inv_def e)
  qed
qed

lemma table_inv_index_all:
  "\<forall>tab\<in>set tables. table_inv tab \<Longrightarrow> \<forall>tab\<in>set (index_all embedded tables). table_inv tab"
proof (induction embedded arbitrary: tables)
  case Nil
  then show ?case by (simp add: index_all_def)
next
  case (Cons e embedded)
  obtain Hs key where e: "e = (Hs, key)" by (cases e)
  have "\<forall>tab\<in>set (index_record Hs key tables). table_inv tab"
    using Cons.prems
    by (auto simp: index_record_def set_zip table_inv_add dest: in_set_dropD)
  from Cons.IH [OF this] show ?case
    by (simp add: index_all_def e)
qed

lemma table_inv_entry:
  assumes "table_inv tab" "(H, c) \<in> set tab"
  shows "distinct c \<and> bucket tab H = set c"
proof -
  from assms have "map_of tab H = Some c"
    by (auto simp: table_inv_def)
  with assms show ?thesis
    by (auto simp: bucket_def table_inv_def)
qed

lemma cluster_tables_singletons:
  assumes "\<forall>table\<in>set tables. \<forall>e\<in>set table. length (snd e) \<le> 1"
  shows "cluster_tables id_iter tables uf = Some uf"
proof -
  have inner: "foldM (\<lambda>(H, cluster). union_cluster id_iter cluster) table u = Some u"
    if "\<forall>e\<in>set table. length (snd e) \<le> 1" for table u
    using that by (induction table) (auto simp: union_cluster_def)
  show ?thesis
    unfolding cluster_tables_def using assms
    by (induction tables) (auto simp: inner)
qed


lemma two_of_distinct:
  assumes "distinct c" "\<not> length c \<le> 1"
  shows "\<exists>a b. a \<in> set c \<and> b \<in> set c \<and> a \<noteq> b"
proof -
  from assms(2) obtain a b cs where "c = a # b # cs"
    by (cases c; cases "tl c") auto
  with assms(1) show ?thesis by auto
qed

text \<open>
  The fuzzy half of C6 holds: two kept records never share a band key (they would have
  been joined), so a second run on the output finds only buckets of one id and keeps
  every record.
\<close>

lemma minhash_idempotent:
  assumes "1 \<le> num_perm" "1 \<le> batch_size" "enumerates id_iter"
    and run: "minhash_main sha1 set_iter id_iter host integrate draw threshold num_perm ngram
      batch_size ds = Some (clusters, final_data)"
  shows "\<exists>clusters'. minhash_main sha1 set_iter id_iter host integrate draw threshold num_perm
      ngram batch_size final_data = Some (clusters', final_data)"
proof -
  obtain B R where opt: "optimal_param integrate threshold num_perm 0.5 0.5 = (B, R)"
    by (cases "optimal_param integrate threshold num_perm 0.5 0.5")
  let ?perms = "map draw [0..<num_perm]"
  let ?keys = "\<lambda>c. band_keys sha1 set_iter host c num_perm ngram (HASH_RANGES B R) ?perms"
  let ?tables1 = "index_all (map (\<lambda>m. (?keys (ds ! m), m)) [0..<length ds]) (replicate B [])"
  let ?tables2 = "index_all (map (\<lambda>m. (?keys (final_data ! m), m)) [0..<length final_data])
      (replicate B [])"
  from minhash_main_Some [OF assms(1,2) opt, of id_iter sha1 set_iter host ds ngram draw]
  obtain uf where uf: "refines UnionFind_new uf"
    and joined: "\<forall>table\<in>set ?tables1. \<forall>e\<in>set table. joined id_iter (snd e) uf"
    and run1: "minhash_main sha1 set_iter id_iter host integrate draw threshold num_perm ngram
             batch_size ds =
             Some (map (rep uf) [0..<length ds],
                   map ((!) ds) (filter (\<lambda>i. rep uf i = i) [0..<length ds]))"
    by blast
  define kept where "kept = filter (\<lambda>i. rep uf i = i) [0..<length ds]"
  have fd: "final_data = map ((!) ds) kept"
    using run run1 by (simp add: kept_def)
  have kept: "distinct kept" "\<And>i. i \<in> set kept \<Longrightarrow> i < length ds \<and> rep uf i = i"
    by (auto simp: kept_def)
  have small: "length c \<le> 1" if tab: "table \<in> set ?tables2" and e: "(H, c) \<in> set table" for table H c
  proof (rule ccontr)
    assume big: "\<not> length c \<le> 1"
    from tab obtain t where t: "t < B" "table = ?tables2 ! t"
      by (auto simp: in_set_conv_nth)
    have "\<forall>tab\<in>set ?tables2. table_inv tab"
      by (rule table_inv_index_all) (simp add: table_inv_def)
    with tab have "table_inv table" by blast
    from table_inv_entry [OF this e] have c: "distinct c" "bucket table H = set c" by simp_all
    from two_of_distinct [OF c(1) big] obtain m1 m2 where
      m: "m1 \<in> set c" "m2 \<in> set c" "m1 \<noteq> m2" by blast
    have b2: "bucket table H = {m. m < length final_data \<and> t < length (?keys (final_data ! m)) \<and>
        ?keys (final_data ! m) ! t = H}"
      unfolding t(2) using t(1) by (rule bucket_fingerprints)
    with m c(2) have m12: "m1 < length kept" "m2 < length kept"
      "?keys (final_data ! m1) ! t = H" "?keys (final_data ! m2) ! t = H"
      by (auto simp: fd)
    let ?i1 = "kept ! m1" and ?i2 = "kept ! m2"
    have ne: "?i1 \<noteq> ?i2"
      using kept(1) m(3) m12(1,2) by (simp add: nth_eq_iff_index_eq)
    have i: "?i1 < length ds" "rep uf ?i1 = ?i1" "?i2 < length ds" "rep uf ?i2 = ?i2"
      using kept(2) [of ?i1] kept(2) [of ?i2] m12(1,2) by simp_all
    have k: "?keys (ds ! ?i1) ! t = H" "?keys (ds ! ?i2) ! t = H"
      using m12 by (simp_all add: fd)
    have "bucket (?tables1 ! t) H = {m. m < length ds \<and> t < length (?keys (ds ! m)) \<and>
        ?keys (ds ! m) ! t = H}"
      using t(1) by (rule bucket_fingerprints)
    then have in1: "?i1 \<in> bucket (?tables1 ! t) H" "?i2 \<in> bucket (?tables1 ! t) H"
      using i k t(1) by (simp_all add: HASH_RANGES_def)
    with bucket_entry [of ?i1 "?tables1 ! t" H] obtain c1 where
      c1: "(H, c1) \<in> set (?tables1 ! t)" "?i1 \<in> set c1" "?i2 \<in> set c1"
      by auto
    have "card {?i1, ?i2} \<le> card (set c1)"
      using c1(2,3) by (intro card_mono) auto
    also have "\<dots> \<le> length c1" by (rule card_length)
    finally have "2 \<le> length c1" using ne by simp
    moreover have "?tables1 ! t \<in> set ?tables1"
      using t(1) by (intro nth_mem) simp
    with joined c1(1) have "joined id_iter c1 uf" by force
    moreover have "set (id_iter c1) = set c1"
      using assms(3) by (simp add: enumerates_def)
    ultimately have "rep uf ?i1 = rep uf (min_list c1)" "rep uf ?i2 = rep uf (min_list c1)"
      using c1(2,3) by (simp_all add: joined_def)
    with i ne show False by simp
  qed
  have "cluster_tables id_iter ?tables2 UnionFind_new = Some UnionFind_new"
    by (rule cluster_tables_singletons) (use small in force)
  moreover
  from minhash_main_Some [OF assms(1,2) opt, of id_iter sha1 set_iter host final_data ngram draw]
  obtain uf2 where "cluster_tables id_iter ?tables2 UnionFind_new = Some uf2"
    and run2: "minhash_main sha1 set_iter id_iter host integrate draw threshold num_perm ngram
             batch_size final_data =
             Some (map (rep uf2) [0..<length final_data],
                   map ((!) final_data) (filter (\<lambda>i. rep uf2 i = i) [0..<length final_data]))"
    by blast
  ultimately have "uf2 = UnionFind_new" by simp
  with run2 show ?thesis by (simp add: map_nth)
qed

end
